theory Spec2Isabelle
  imports Main "HOL-Library.Word"
begin

section \<open>JavaScript strings\<close>

text \<open>
  A JavaScript string is a sequence of UTF-16 code units, and \<open>length\<close>, indexing and the
  DOM's text offsets all count code units.  \<open>js\<close> writes an ASCII literal as such a string.
\<close>

type_synonym jschar = "16 word"
type_synonym jsstring = "jschar list"

definition js :: "string \<Rightarrow> jsstring" where
  "js s = map of_char s"

text \<open>\<open>content[i]\<close>: the code unit at index \<open>i\<close>, \<open>undefined\<close> (here \<open>None\<close>) out of range.\<close>

definition charAt :: "jsstring \<Rightarrow> int \<Rightarrow> jschar option" where
  "charAt s i = (if 0 \<le> i \<and> i < int (length s) then Some (s ! nat i) else None)"

definition LF :: jschar where
  "LF = 0x0A"

section \<open>The DOM tree under the editor element\<close>

text \<open>
  The subtree of the contentEditable element: text nodes, comments and elements.  A node
  object is identified by its path of child indices from the element (the element itself is
  the empty path); a reference to a node, as JavaScript holds it, is the path together with
  the node found there.
\<close>

datatype domNode = Text jsstring | Comment jsstring | Element "domNode list"

type_synonym path = "nat list"
type_synonym Node = "path \<times> domNode"

fun descendantText :: "domNode \<Rightarrow> jsstring" where
  "descendantText (Text s) = s"
| "descendantText (Comment s) = []"
| "descendantText (Element cs) = concat (map descendantText cs)"

text \<open>\<open>node.textContent\<close>: the data of a text node or comment, the concatenated data of the
  text-node descendants of an element.\<close>

fun textContent :: "domNode \<Rightarrow> jsstring" where
  "textContent (Text s) = s"
| "textContent (Comment s) = s"
| "textContent (Element cs) = concat (map descendantText cs)"

text \<open>The DOM's length of a node: the data length of character data, the number of children
  of an element.\<close>

fun nodeLength :: "domNode \<Rightarrow> nat" where
  "nodeLength (Text s) = length s"
| "nodeLength (Comment s) = length s"
| "nodeLength (Element cs) = length cs"

fun lookup :: "domNode \<Rightarrow> path \<Rightarrow> domNode option" where
  "lookup n [] = Some n"
| "lookup (Element cs) (i # p) = (if i < length cs then lookup (cs ! i) p else None)"
| "lookup (Text s) (i # p) = None"
| "lookup (Comment s) (i # p) = None"

text \<open>The text nodes of a subtree in tree order (pre-order, depth first), each with its path
  and its data.\<close>

fun textNodes :: "path \<Rightarrow> domNode \<Rightarrow> (path \<times> jsstring) list"
  and textNodesFrom :: "path \<Rightarrow> nat \<Rightarrow> domNode list \<Rightarrow> (path \<times> jsstring) list" where
  "textNodes p (Text s) = [(p, s)]"
| "textNodes p (Comment s) = []"
| "textNodes p (Element cs) = textNodesFrom p 0 cs"
| "textNodesFrom p i [] = []"
| "textNodesFrom p i (c # cs) = textNodes (p @ [i]) c @ textNodesFrom p (Suc i) cs"

fun children :: "domNode \<Rightarrow> domNode list" where
  "children (Element cs) = cs"
| "children (Text s) = []"
| "children (Comment s) = []"

text \<open>
  \<open>document.createTreeWalker(element, NodeFilter.SHOW_TEXT, null)\<close>: the nodes that the
  successive calls of \<open>walker.nextNode()\<close> visit are the text nodes below the root in tree
  order; the root itself is never visited.
\<close>

definition createTreeWalker_SHOW_TEXT :: "domNode \<Rightarrow> (path \<times> jsstring) list" where
  "createTreeWalker_SHOW_TEXT root = textNodesFrom [] 0 (children root)"

section \<open>Boundary points, ranges and the selection\<close>

datatype relpos = Before | Equal | After

text \<open>
  The DOM's position of a boundary point relative to another one, on paths: in the same
  node the offsets decide; a point in an ancestor is after the other one exactly when the
  child leading to it has an index below the ancestor's offset; otherwise tree order decides.
\<close>

fun boundaryPosition :: "path \<times> nat \<Rightarrow> path \<times> nat \<Rightarrow> relpos" where
  "boundaryPosition ([], ka) ([], kb) = (if ka = kb then Equal else if ka < kb then Before else After)"
| "boundaryPosition ([], ka) (j # pb, kb) = (if j < ka then After else Before)"
| "boundaryPosition (i # pa, ka) ([], kb) = (if i < kb then Before else After)"
| "boundaryPosition (i # pa, ka) (j # pb, kb) =
     (if i = j then boundaryPosition (pa, ka) (pb, kb) else if i < j then Before else After)"

record Range =
  startContainer :: Node
  startOffset :: nat
  endContainer :: Node
  endOffset :: nat

datatype DOMException = IndexSizeError

text \<open>Web IDL's conversion of a JavaScript integer to \<open>unsigned long\<close>.\<close>

definition toUnsignedLong :: "int \<Rightarrow> nat" where
  "toUnsignedLong x = nat (x mod 2 ^ 32)"

text \<open>
  \<open>document.createRange()\<close> gives a range collapsed at the first boundary point of the
  document.  The model's tree begins at the element, so the fresh range is collapsed at the
  first boundary point of the model's tree, which, like the document's, is before or equal
  to every boundary point inside the element.
\<close>

definition createRange :: "domNode \<Rightarrow> Range" where
  "createRange root =
     \<lparr>startContainer = ([], root), startOffset = 0, endContainer = ([], root), endOffset = 0\<rparr>"

text \<open>\<open>range.setStart(node, offset)\<close> and \<open>range.setEnd(node, offset)\<close>: an offset beyond the
  node's length throws IndexSizeError; a start after the end moves the end, an end before
  the start moves the start.\<close>

definition Range_setStart :: "Range \<Rightarrow> Node \<Rightarrow> int \<Rightarrow> DOMException + Range" where
  "Range_setStart r node offset =
     (let k = toUnsignedLong offset in
      if k > nodeLength (snd node) then Inl IndexSizeError
      else if boundaryPosition (fst node, k) (fst (endContainer r), endOffset r) = After
      then Inr \<lparr>startContainer = node, startOffset = k, endContainer = node, endOffset = k\<rparr>
      else Inr (r\<lparr>startContainer := node, startOffset := k\<rparr>))"

definition Range_setEnd :: "Range \<Rightarrow> Node \<Rightarrow> int \<Rightarrow> DOMException + Range" where
  "Range_setEnd r node offset =
     (let k = toUnsignedLong offset in
      if k > nodeLength (snd node) then Inl IndexSizeError
      else if boundaryPosition (fst node, k) (fst (startContainer r), startOffset r) = Before
      then Inr \<lparr>startContainer = node, startOffset = k, endContainer = node, endOffset = k\<rparr>
      else Inr (r\<lparr>endContainer := node, endOffset := k\<rparr>))"

text \<open>\<open>range.collapse(toStart)\<close>.\<close>

definition Range_collapse :: "Range \<Rightarrow> bool \<Rightarrow> Range" where
  "Range_collapse r toStart =
     (if toStart then r\<lparr>endContainer := startContainer r, endOffset := startOffset r\<rparr>
      else r\<lparr>startContainer := endContainer r, startOffset := endOffset r\<rparr>)"

text \<open>A text node is contained in a range when its first boundary point is after the
  range's start and its last boundary point is before the range's end.\<close>

definition contained :: "Range \<Rightarrow> path \<times> jsstring \<Rightarrow> bool" where
  "contained r t =
     (boundaryPosition (fst t, 0) (fst (startContainer r), startOffset r) = After \<and>
      boundaryPosition (fst t, length (snd t)) (fst (endContainer r), endOffset r) = Before)"

fun textData :: "domNode \<Rightarrow> jsstring option" where
  "textData (Text s) = Some s"
| "textData (Comment s) = None"
| "textData (Element cs) = None"

text \<open>
  \<open>range.toString()\<close>, the DOM's stringification of a range within the tree \<open>root\<close>: if both
  ends lie in one text node, the data between the offsets; otherwise the tail of the start
  node's data if it is a text node, the data of every contained text node in tree order, and
  the head of the end node's data if it is a text node.
\<close>

definition Range_toString :: "domNode \<Rightarrow> Range \<Rightarrow> jsstring" where
  "Range_toString root r =
     (case (if fst (startContainer r) = fst (endContainer r)
            then textData (snd (startContainer r)) else None) of
        Some d \<Rightarrow> drop (startOffset r) (take (endOffset r) d)
      | None \<Rightarrow>
          (case textData (snd (startContainer r)) of
             Some d \<Rightarrow> drop (startOffset r) d | None \<Rightarrow> [])
          @ concat (map snd (filter (contained r) (textNodes [] root)))
          @ (case textData (snd (endContainer r)) of
               Some d \<Rightarrow> take (endOffset r) d | None \<Rightarrow> []))"

text \<open>
  The window: \<open>window.getSelection()\<close> is \<open>null\<close> (\<open>None\<close>) or a selection with its list of
  ranges; the console collects the warnings.
\<close>

record Window =
  selection :: "Range list option"
  console :: "(string \<times> DOMException) list"

text \<open>\<open>selection?.removeAllRanges()\<close> and \<open>selection?.addRange(range)\<close>; by the Selection API
  \<open>addRange\<close> does nothing when the selection already has a range.  The element is
  taken to be connected to the window's document, as the mounted editor is, so that a
  range inside it is one that the selection accepts.\<close>

definition removeAllRanges :: "Window \<Rightarrow> Window" where
  "removeAllRanges w = w\<lparr>selection := map_option (\<lambda>rs. []) (selection w)\<rparr>"

definition addRange :: "Range \<Rightarrow> Window \<Rightarrow> Window" where
  "addRange r w = w\<lparr>selection := map_option (\<lambda>rs. if rs = [] then [r] else rs) (selection w)\<rparr>"

definition console_warn :: "string \<Rightarrow> DOMException \<Rightarrow> Window \<Rightarrow> Window" where
  "console_warn msg e w = w\<lparr>console := console w @ [(msg, e)]\<rparr>"

definition try_catch :: "DOMException + 'a \<Rightarrow> (DOMException \<Rightarrow> 'a) \<Rightarrow> 'a" where
  "try_catch body handler = (case body of Inl e \<Rightarrow> handler e | Inr v \<Rightarrow> v)"

section \<open>src/utils/cursor.ts\<close>

definition getTextContent :: "domNode \<Rightarrow> jsstring" where
  "getTextContent element = textContent element"

text \<open>
  The loop shared by \<open>setCursorPosition\<close> and \<open>setCursorAtOffset\<close>: walk the text nodes,
  adding up their lengths, and stop at the first node where the running length plus the
  node's length reaches the offset.
\<close>

fun findTarget :: "(path \<times> jsstring) list \<Rightarrow> int \<Rightarrow> int \<Rightarrow> (Node \<times> int) option" where
  "findTarget [] currentOffset offset = None"
| "findTarget ((p, s) # walker) currentOffset offset =
     (let nodeLength = int (length s) in
      if currentOffset + nodeLength \<ge> offset
      then Some ((p, Text s), offset - currentOffset)
      else findTarget walker (currentOffset + nodeLength) offset)"

text \<open>The \<open>try\<close> block of both functions: place a collapsed range at the target.\<close>

definition placeCaret :: "domNode \<Rightarrow> Node \<Rightarrow> int \<Rightarrow> Window \<Rightarrow> DOMException + Window" where
  "placeCaret element targetNode targetOffset w =
     (case Range_setStart (createRange element) targetNode
             (min targetOffset (int (length (textContent (snd targetNode))))) of
        Inl e \<Rightarrow> Inl e
      | Inr rng \<Rightarrow> Inr (addRange (Range_collapse rng True) (removeAllRanges w)))"

record CursorPosition =
  offset :: int
  node :: "Node option"
  line :: "int option"
  column :: "int option"

text \<open>\<open>getCursorPosition\<close>: no selection or no range gives \<open>null\<close>; otherwise the length of
  the text between the start of the element and the start of the first range.\<close>

definition getCursorPosition :: "domNode \<Rightarrow> Window \<Rightarrow> DOMException + CursorPosition option" where
  "getCursorPosition element w =
     (case selection w of
        None \<Rightarrow> Inr None
      | Some ranges \<Rightarrow>
          if length ranges = 0 then Inr None
          else
            (let rng = ranges ! 0 in
             case Range_setStart (createRange element) ([], element) 0 of
               Inl e \<Rightarrow> Inl e
             | Inr preRange0 \<Rightarrow>
                 (case Range_setEnd preRange0 (startContainer rng) (int (startOffset rng)) of
                    Inl e \<Rightarrow> Inl e
                  | Inr preRange \<Rightarrow>
                      Inr (Some \<lparr>offset = int (length (Range_toString element preRange)),
                                 node = Some (startContainer rng),
                                 line = None, column = None\<rparr>))))"

text \<open>The target of \<open>setCursorPosition\<close>: the node and offset that the walk finds, or the
  element itself with offset 0 if it finds none.\<close>

definition setCursorPosition_target :: "domNode \<Rightarrow> int \<Rightarrow> Node \<times> int" where
  "setCursorPosition_target element offs =
     (let walker = createTreeWalker_SHOW_TEXT element in
      case findTarget walker 0 offs of
        Some t \<Rightarrow> t
      | None \<Rightarrow> (([], element), 0))"

definition setCursorPosition :: "domNode \<Rightarrow> CursorPosition \<Rightarrow> Window \<Rightarrow> DOMException + Window" where
  "setCursorPosition element position w =
     (let (targetNode, targetOffset) = setCursorPosition_target element (offset position)
      in Inr (try_catch (placeCaret element targetNode targetOffset w)
                (\<lambda>error. console_warn ''Failed to set cursor position:'' error w)))"

definition setCursorAtOffset :: "domNode \<Rightarrow> int \<Rightarrow> Window \<Rightarrow> DOMException + Window" where
  "setCursorAtOffset element targetOffset w =
     (let walker = createTreeWalker_SHOW_TEXT element in
      case findTarget walker 0 targetOffset of
        Some (targetNode, nodeOffset) \<Rightarrow>
          Inr (try_catch (placeCaret element targetNode nodeOffset w)
                 (\<lambda>error. console_warn ''Failed to set cursor position:'' error w))
      | None \<Rightarrow> Inr w)"

definition saveCursorPosition :: "domNode \<Rightarrow> Window \<Rightarrow> DOMException + CursorPosition option" where
  "saveCursorPosition element w = getCursorPosition element w"

definition restoreCursorPosition ::
    "domNode \<Rightarrow> CursorPosition option \<Rightarrow> Window \<Rightarrow> DOMException + Window" where
  "restoreCursorPosition element position w =
     (case position of Some p \<Rightarrow> setCursorPosition element p w | None \<Rightarrow> Inr w)"

text \<open>
  An element that has been removed from the document.  Walking its subtree and setting a
  range inside it work as before: \<open>setStart\<close> tests the offset against the length of the
  node only, and for a node of another tree it moves both ends of the range to the new
  point, which is where the fresh range of the model ends up as well.  The difference lies
  in the Selection API's \<open>addRange\<close>, whose first step ignores a range whose root is not the
  document of the window.  \<open>inDocument\<close> tells whether the element is connected; for a
  connected element the three functions below are \<open>placeCaret\<close>, \<open>setCursorPosition\<close> and
  \<open>setCursorAtOffset\<close>.  The specification calls the \<open>try\<close> block \<open>applyPosition\<close>.
\<close>

definition Selection_addRange :: "bool \<Rightarrow> Range \<Rightarrow> Window \<Rightarrow> Window" where
  "Selection_addRange inDocument r w = (if inDocument then addRange r w else w)"

definition applyPosition ::
    "bool \<Rightarrow> domNode \<Rightarrow> Node \<Rightarrow> int \<Rightarrow> Window \<Rightarrow> DOMException + Window" where
  "applyPosition inDocument element targetNode targetOffset w =
     (case Range_setStart (createRange element) targetNode
             (min targetOffset (int (length (textContent (snd targetNode))))) of
        Inl e \<Rightarrow> Inl e
      | Inr rng \<Rightarrow>
          Inr (Selection_addRange inDocument (Range_collapse rng True) (removeAllRanges w)))"

definition setCursorPositionOn ::
    "bool \<Rightarrow> domNode \<Rightarrow> CursorPosition \<Rightarrow> Window \<Rightarrow> DOMException + Window" where
  "setCursorPositionOn inDocument element position w =
     (let (targetNode, targetOffset) = setCursorPosition_target element (offset position)
      in Inr (try_catch (applyPosition inDocument element targetNode targetOffset w)
                (\<lambda>error. console_warn ''Failed to set cursor position:'' error w)))"

definition setCursorAtOffsetOn ::
    "bool \<Rightarrow> domNode \<Rightarrow> int \<Rightarrow> Window \<Rightarrow> DOMException + Window" where
  "setCursorAtOffsetOn inDocument element targetOffset w =
     (let walker = createTreeWalker_SHOW_TEXT element in
      case findTarget walker 0 targetOffset of
        Some (targetNode, nodeOffset) \<Rightarrow>
          Inr (try_catch (applyPosition inDocument element targetNode nodeOffset w)
                 (\<lambda>error. console_warn ''Failed to set cursor position:'' error w))
      | None \<Rightarrow> Inr w)"

section \<open>src/components/ui/Editor.tsx: paragraph navigation\<close>

text \<open>
  Ctrl+ArrowUp.  The first loop scans backward from \<open>currentOffset - 1\<close> for a line break
  that is the first character or follows a line break; the paragraph starts after it.
\<close>

function findParagraphStart :: "jsstring \<Rightarrow> int \<Rightarrow> int option" where
  "findParagraphStart content i =
     (if i \<ge> 0 then
        (if charAt content i = Some LF \<and> (i = 0 \<or> charAt content (i - 1) = Some LF)
         then Some (i + 1)
         else findParagraphStart content (i - 1))
      else None)"
  by pat_completeness auto
termination
  by (relation "measure (\<lambda>(content, i). nat (i + 1))") auto

text \<open>The second loop, from \<open>paragraphStart - 2\<close> backward: stop after the first character
  that is no line break, or at index 0; \<open>targetPosition\<close> keeps its value if the loop body
  never runs.\<close>

function previousParagraphEnd :: "jsstring \<Rightarrow> int \<Rightarrow> int \<Rightarrow> int" where
  "previousParagraphEnd content i targetPosition =
     (if i \<ge> 0 then
        (if charAt content i \<noteq> Some LF then i + 1
         else if i = 0 then 0
         else previousParagraphEnd content (i - 1) targetPosition)
      else targetPosition)"
  by pat_completeness auto
termination
  by (relation "measure (\<lambda>(content, i, targetPosition). nat (i + 1))") auto

definition arrowUpTarget :: "jsstring \<Rightarrow> int \<Rightarrow> int" where
  "arrowUpTarget content currentOffset =
     (let paragraphStart =
            (case findParagraphStart content (currentOffset - 1) of Some p \<Rightarrow> p | None \<Rightarrow> 0);
          targetPosition = paragraphStart
      in if \<bar>currentOffset - paragraphStart\<bar> \<le> 1
         then (if paragraphStart > 0
               then previousParagraphEnd content (paragraphStart - 2) targetPosition
               else int (length content))
         else targetPosition)"

text \<open>
  Ctrl+ArrowDown.  The first loop scans forward from \<open>currentOffset\<close> for a line break that
  is the last character or is followed by a line break; without one the paragraph ends at
  the end of the text.
\<close>

function findParagraphEnd :: "jsstring \<Rightarrow> int \<Rightarrow> int" where
  "findParagraphEnd content i =
     (if i < int (length content) then
        (if charAt content i = Some LF \<and>
            (i = int (length content) - 1 \<or> charAt content (i + 1) = Some LF)
         then i
         else findParagraphEnd content (i + 1))
      else int (length content))"
  by pat_completeness auto
termination
  by (relation "measure (\<lambda>(content, i). nat (int (length content) - i))") auto

text \<open>The second loop, from \<open>paragraphEnd + 1\<close> forward: stop at the first index that follows
  two line breaks or holds a character that is no line break.\<close>

function nextParagraphStart :: "jsstring \<Rightarrow> int \<Rightarrow> int \<Rightarrow> int" where
  "nextParagraphStart content i targetPosition =
     (if i < int (length content) then
        (if charAt content (i - 1) = Some LF \<and> charAt content (i - 2) = Some LF then i
         else if charAt content i \<noteq> Some LF then i
         else nextParagraphStart content (i + 1) targetPosition)
      else targetPosition)"
  by pat_completeness auto
termination
  by (relation "measure (\<lambda>(content, i, targetPosition). nat (int (length content) - i))") auto

definition arrowDownTarget :: "jsstring \<Rightarrow> int \<Rightarrow> int" where
  "arrowDownTarget content currentOffset =
     (let paragraphEnd = findParagraphEnd content currentOffset;
          targetPosition = paragraphEnd
      in if currentOffset = paragraphEnd
         then (if paragraphEnd < int (length content)
               then nextParagraphStart content (paragraphEnd + 1) targetPosition
               else 0)
         else targetPosition)"

text \<open>The specification calls the two computations \<open>findParagraphBoundary\<close> with a direction.\<close>

datatype direction = backward | forward

definition findParagraphBoundary :: "jsstring \<Rightarrow> int \<Rightarrow> direction \<Rightarrow> int" where
  "findParagraphBoundary fullText fromOffset dir =
     (case dir of
        forward \<Rightarrow> arrowDownTarget fullText fromOffset
      | backward \<Rightarrow> arrowUpTarget fullText fromOffset)"

section \<open>src/components/WritingStudio.tsx: statistics\<close>

text \<open>
  The code units that \<open>String.prototype.trim\<close> strips and that \<open>\s\<close> matches: ECMAScript's
  WhiteSpace and LineTerminator.
\<close>

definition isWhiteSpace :: "jschar \<Rightarrow> bool" where
  "isWhiteSpace c =
     (c = 0x0009 \<or> c = 0x000A \<or> c = 0x000B \<or> c = 0x000C \<or> c = 0x000D \<or> c = 0x0020 \<or>
      c = 0x00A0 \<or> c = 0x1680 \<or> (0x2000 \<le> c \<and> c \<le> 0x200A) \<or> c = 0x2028 \<or> c = 0x2029 \<or>
      c = 0x202F \<or> c = 0x205F \<or> c = 0x3000 \<or> c = 0xFEFF)"

definition trim :: "jsstring \<Rightarrow> jsstring" where
  "trim s = rev (dropWhile isWhiteSpace (rev (dropWhile isWhiteSpace s)))"

text \<open>
  \<open>s.split(/\s+/)\<close>: every maximal run of white space ends the current piece and starts a
  new one; the end of the string ends the last piece.  The second argument is the piece
  collected so far.
\<close>

function split_whitespace :: "jsstring \<Rightarrow> jsstring \<Rightarrow> jsstring list" where
  "split_whitespace [] piece = [piece]"
| "split_whitespace (c # cs) piece =
     (if isWhiteSpace c then piece # split_whitespace (dropWhile isWhiteSpace cs) []
      else split_whitespace cs (piece @ [c]))"
  by pat_completeness auto
termination
  by (relation "measure (\<lambda>(s, piece). length s)")
     (auto simp: less_Suc_eq_le length_dropWhile_le)

record StudioState =
  content :: jsstring
  wordCount :: nat
  charCount :: nat

definition handleContentChange :: "jsstring \<Rightarrow> StudioState \<Rightarrow> StudioState" where
  "handleContentChange newContent st =
     (let words = (if trim newContent = [] then 0
                   else length (split_whitespace (trim newContent) []))
      in st\<lparr>content := newContent, wordCount := words, charCount := length newContent\<rparr>)"

text \<open>The number of maximal runs of characters that are no white space: count one at the
  first character of a run and skip the rest of the run.\<close>

function nonWhitespaceRuns :: "jsstring \<Rightarrow> nat" where
  "nonWhitespaceRuns [] = 0"
| "nonWhitespaceRuns (c # cs) =
     (if isWhiteSpace c then nonWhitespaceRuns cs
      else Suc (nonWhitespaceRuns (dropWhile (\<lambda>x. \<not> isWhiteSpace x) cs)))"
  by pat_completeness auto
termination
  by (relation "measure length") (auto simp: less_Suc_eq_le length_dropWhile_le)

section \<open>Auxiliary notions for the statements\<close>

text \<open>
  The DOM stores every length and offset as an \<open>unsigned long\<close>: in a tree that a browser
  can hold, the data of a text node or comment and the child list of an element are shorter
  than \<open>2 ^ 32\<close>.
\<close>

fun validTree :: "domNode \<Rightarrow> bool" where
  "validTree (Text s) = (length s < 2 ^ 32)"
| "validTree (Comment s) = (length s < 2 ^ 32)"
| "validTree (Element cs) = (length cs < 2 ^ 32 \<and> list_all validTree cs)"

text \<open>The total length of the text of a list of text nodes, and the cumulative length of
  the first \<open>j\<close> of them.\<close>

definition textLength :: "(path \<times> jsstring) list \<Rightarrow> int" where
  "textLength L = int (length (concat (map snd L)))"

definition cumulativeLength :: "(path \<times> jsstring) list \<Rightarrow> nat \<Rightarrow> int" where
  "cumulativeLength L j = textLength (take j L)"

text \<open>A caret: the range collapsed at a boundary point.\<close>

definition caret :: "Node \<Rightarrow> nat \<Rightarrow> Range" where
  "caret nd k = \<lparr>startContainer = nd, startOffset = k, endContainer = nd, endOffset = k\<rparr>"

text \<open>The argument that the handlers pass to \<open>setCursorPosition\<close>: a position with the
  offset alone.\<close>

definition positionAt :: "int \<Rightarrow> CursorPosition" where
  "positionAt k = \<lparr>offset = k, node = None, line = None, column = None\<rparr>"

text \<open>The tree of the specification's scenario B, two leaves "abc" and "de", and a window
  whose selection has no range.\<close>

definition twoLeaves :: domNode where
  "twoLeaves = Element [Text (js ''abc''), Text (js ''de'')]"

definition emptyWindow :: Window where
  "emptyWindow = \<lparr>selection = Some [], console = []\<rparr>"

text \<open>Node \<open>p\<close> comes before node \<open>q\<close> in tree order and neither contains the other: every
  boundary point in \<open>p\<close> is before every boundary point in \<open>q\<close>.\<close>

definition strictlyBefore :: "path \<times> jsstring \<Rightarrow> path \<times> jsstring \<Rightarrow> bool" where
  "strictlyBefore t u =
     (\<forall>a b. boundaryPosition (fst t, a) (fst u, b) = Before \<and>
            boundaryPosition (fst u, b) (fst t, a) = After)"

text \<open>The equations of the four loops unfold without end under the simplifier; they are
  applied by hand.\<close>

declare findParagraphStart.simps [simp del] previousParagraphEnd.simps [simp del]
  findParagraphEnd.simps [simp del] nextParagraphStart.simps [simp del]

section \<open>Paragraph navigation on a concrete text\<close>

text \<open>
  C4 (as stated): for the text "Hello\n\nWorld", findParagraphBoundary forward from 0 is 7,
  forward from 7 is 12, and backward from 12 is 0.  The code does not do this: forward from
  0 stops at the end of the first paragraph and backward from 12 stops at the start of the
  last one, so the three equations do not hold together.
\<close>

theorem C4_counterexample:
  "\<not> (findParagraphBoundary (js ''Hello\<newline>\<newline>World'') 0 forward = 7 \<and>
      findParagraphBoundary (js ''Hello\<newline>\<newline>World'') 7 forward = 12 \<and>
      findParagraphBoundary (js ''Hello\<newline>\<newline>World'') 12 backward = 0)"
  by (simp add: findParagraphBoundary_def arrowDownTarget_def js_def charAt_def LF_def
      findParagraphEnd.simps nextParagraphStart.simps)

text \<open>
  C4 (amended): the text "Hello\n\nWorld" has 12 characters; Ctrl+ArrowDown from 0 goes to 5,
  the end of "Hello", from 5 to 7, the start of "World", and from 7 to 12, the end of the
  text; Ctrl+ArrowUp from 12 goes to 7, the start of "World".
\<close>

theorem C4_scenario:
  "length (js ''Hello\<newline>\<newline>World'') = 12 \<and>
   findParagraphBoundary (js ''Hello\<newline>\<newline>World'') 0 forward = 5 \<and>
   findParagraphBoundary (js ''Hello\<newline>\<newline>World'') 5 forward = 7 \<and>
   findParagraphBoundary (js ''Hello\<newline>\<newline>World'') 7 forward = 12 \<and>
   findParagraphBoundary (js ''Hello\<newline>\<newline>World'') 12 backward = 7"
  by (simp add: findParagraphBoundary_def arrowDownTarget_def arrowUpTarget_def
      js_def charAt_def LF_def findParagraphEnd.simps nextParagraphStart.simps
      findParagraphStart.simps previousParagraphEnd.simps)

section \<open>Word and character count\<close>

lemma nonWhitespaceRuns_dropWhile:
  "nonWhitespaceRuns (dropWhile isWhiteSpace s) = nonWhitespaceRuns s"
  by (induction s) auto

lemma split_whitespace_length:
  "s \<noteq> [] \<Longrightarrow> \<not> isWhiteSpace (last s) \<Longrightarrow>
   length (split_whitespace s piece) =
     nonWhitespaceRuns s + (if isWhiteSpace (hd s) then 1 else 0)"
proof (induction s piece rule: split_whitespace.induct)
  case (1 piece)
  then show ?case by simp
next
  case (2 c cs piece)
  show ?case
  proof (cases "isWhiteSpace c")
    case True
    let ?d = "dropWhile isWhiteSpace cs"
    from True "2.prems" have cs: "cs \<noteq> []" by auto
    with "2.prems" have lastcs: "\<not> isWhiteSpace (last cs)" by simp
    have d: "?d \<noteq> []"
    proof
      assume "?d = []"
      then have "\<forall>x\<in>set cs. isWhiteSpace x" by (simp add: dropWhile_eq_Nil_conv)
      with cs lastcs show False using last_in_set by blast
    qed
    have "last ?d = last cs"
      by (metis d takeWhile_dropWhile_id last_appendR)
    with lastcs have ld: "\<not> isWhiteSpace (last ?d)" by simp
    have hd: "\<not> isWhiteSpace (hd ?d)" using d by (rule hd_dropWhile)
    from "2.IH"(1)[OF True d ld] hd
    have "length (split_whitespace ?d []) = nonWhitespaceRuns ?d" by simp
    with True show ?thesis by (simp add: nonWhitespaceRuns_dropWhile)
  next
    case False
    show ?thesis
    proof (cases cs)
      case Nil
      with False show ?thesis by simp
    next
      case (Cons x xs)
      with "2.prems" have "\<not> isWhiteSpace (last cs)" by simp
      from "2.IH"(2)[OF False _ this] Cons
      have "length (split_whitespace cs (piece @ [c])) =
              nonWhitespaceRuns cs + (if isWhiteSpace x then 1 else 0)" by simp
      with False Cons show ?thesis by simp
    qed
  qed
qed

lemma last_dropWhile: "dropWhile P xs \<noteq> [] \<Longrightarrow> last (dropWhile P xs) = last xs"
  by (metis takeWhile_dropWhile_id last_appendR)

lemma dropWhile_Nil_hd: "(\<forall>x\<in>set (dropWhile P xs). P x) \<longleftrightarrow> dropWhile P xs = []"
proof
  assume a: "\<forall>x\<in>set (dropWhile P xs). P x"
  show "dropWhile P xs = []"
  proof (rule ccontr)
    assume n: "dropWhile P xs \<noteq> []"
    then have "\<not> P (hd (dropWhile P xs))" by (rule hd_dropWhile)
    moreover from n have "hd (dropWhile P xs) \<in> set (dropWhile P xs)" by simp
    ultimately show False using a by blast
  qed
qed (auto dest: set_dropWhileD)

lemma trim_Nil_iff: "trim s = [] \<longleftrightarrow> (\<forall>c\<in>set s. isWhiteSpace c)"
proof -
  have "trim s = [] \<longleftrightarrow> (\<forall>x\<in>set (dropWhile isWhiteSpace s). isWhiteSpace x)"
    by (simp add: trim_def dropWhile_eq_Nil_conv)
  also have "\<dots> \<longleftrightarrow> dropWhile isWhiteSpace s = []" by (rule dropWhile_Nil_hd)
  also have "\<dots> \<longleftrightarrow> (\<forall>c\<in>set s. isWhiteSpace c)" by (simp add: dropWhile_eq_Nil_conv)
  finally show ?thesis .
qed

lemma trim_ends:
  assumes "trim s \<noteq> []"
  shows "\<not> isWhiteSpace (hd (trim s))" and "\<not> isWhiteSpace (last (trim s))"
proof -
  let ?d = "dropWhile isWhiteSpace s"
  let ?e = "dropWhile isWhiteSpace (rev ?d)"
  from assms have e: "?e \<noteq> []" by (simp add: trim_def)
  have d: "?d \<noteq> []"
  proof
    assume a: "?d = []"
    have "?e = []" unfolding a by simp
    with e show False by contradiction
  qed
  have "hd (trim s) = last ?e" using e by (simp add: trim_def hd_rev)
  also have "\<dots> = last (rev ?d)" using e by (rule last_dropWhile)
  also have "\<dots> = hd ?d" using d by (simp add: last_rev)
  finally have "hd (trim s) = hd ?d" .
  moreover have "\<not> isWhiteSpace (hd ?d)" using d by (rule hd_dropWhile)
  ultimately show "\<not> isWhiteSpace (hd (trim s))" by simp
  have "last (trim s) = hd ?e" using e by (simp add: trim_def last_rev)
  moreover have "\<not> isWhiteSpace (hd ?e)" using e by (rule hd_dropWhile)
  ultimately show "\<not> isWhiteSpace (last (trim s))" by simp
qed

lemma wordCount_runs:
  "wordCount (handleContentChange s st) = nonWhitespaceRuns (trim s)"
proof (cases "trim s = []")
  case True
  then show ?thesis by (simp add: handleContentChange_def)
next
  case False
  from trim_ends[OF False] split_whitespace_length[OF False, of "[]"]
  show ?thesis using False by (simp add: handleContentChange_def)
qed

text \<open>
  C6: the statistics computation reports 0 words for the empty string and for every string
  of white space only; for "Hello world test" it reports 3 words and 16 characters; the
  character count is the length of the untrimmed string and the word count is the number of
  maximal runs of non-white-space characters of the trimmed string.
\<close>

theorem C6_word_character_count:
  "wordCount (handleContentChange [] st) = 0 \<and>
   ((\<forall>c\<in>set s. isWhiteSpace c) \<longrightarrow> wordCount (handleContentChange s st) = 0) \<and>
   wordCount (handleContentChange (js ''Hello world test'') st) = 3 \<and>
   charCount (handleContentChange (js ''Hello world test'') st) = 16 \<and>
   charCount (handleContentChange s st) = length s \<and>
   wordCount (handleContentChange s st) = nonWhitespaceRuns (trim s)"
proof -
  have 1: "wordCount (handleContentChange [] st) = 0"
    by (simp add: handleContentChange_def trim_def)
  have 2: "(\<forall>c\<in>set s. isWhiteSpace c) \<longrightarrow> wordCount (handleContentChange s st) = 0"
    by (simp add: handleContentChange_def trim_Nil_iff)
  have 3: "wordCount (handleContentChange (js ''Hello world test'') st) = 3"
    by (simp add: handleContentChange_def trim_def js_def isWhiteSpace_def)
  have 4: "charCount (handleContentChange (js ''Hello world test'') st) = 16"
    by (simp add: handleContentChange_def js_def)
  have 5: "charCount (handleContentChange s st) = length s"
    by (simp add: handleContentChange_def)
  from 1 2 3 4 5 wordCount_runs show ?thesis by blast
qed

theorem C6_witness:
  "list_all isWhiteSpace (js ''  '') \<and>
   wordCount (handleContentChange (js ''  '')
     \<lparr>content = [], wordCount = 0, charCount = 0\<rparr>) = 0"
  using C6_word_character_count
    [of "\<lparr>content = [], wordCount = 0, charCount = 0\<rparr>" "js ''  ''"]
  by (simp add: js_def isWhiteSpace_def)

section \<open>The node walk and the ranges\<close>

lemma textLength_simps [simp]:
  "textLength [] = 0"
  "textLength ((p, s) # L) = int (length s) + textLength L"
  "textLength (L1 @ L2) = textLength L1 + textLength L2"
  by (simp_all add: textLength_def)

lemma textLength_nonneg: "0 \<le> textLength L"
  by (simp add: textLength_def)

lemma findTarget_None_iff:
  "findTarget L cur off = None \<longleftrightarrow> (L = [] \<or> cur + textLength L < off)"
proof (induction L arbitrary: cur)
  case Nil
  then show ?case by simp
next
  case (Cons t L)
  obtain p s where t: "t = (p, s)" by (cases t)
  have "0 \<le> textLength L" by (rule textLength_nonneg)
  then show ?case using Cons[of "cur + int (length s)"] t
    by (auto simp: Let_def)
qed

lemma findTarget_Some:
  "findTarget L cur off = Some (nd, k) \<Longrightarrow>
   \<exists>L1 p s L2. L = L1 @ (p, s) # L2 \<and> nd = (p, Text s) \<and>
      k = off - (cur + textLength L1) \<and>
      off \<le> cur + textLength L1 + int (length s) \<and>
      (L1 \<noteq> [] \<longrightarrow> cur + textLength L1 < off)"
proof (induction L arbitrary: cur)
  case Nil
  then show ?case by simp
next
  case (Cons t L)
  obtain p s where t: "t = (p, s)" by (cases t)
  show ?case
  proof (cases "cur + int (length s) \<ge> off")
    case True
    with Cons.prems t have "nd = (p, Text s)" "k = off - cur" by (auto simp: Let_def)
    with True t show ?thesis by (intro exI[of _ "[]"] exI[of _ p] exI[of _ s] exI[of _ L]) simp
  next
    case False
    with Cons.prems t have "findTarget L (cur + int (length s)) off = Some (nd, k)"
      by (simp add: Let_def)
    from Cons.IH[OF this] obtain L1 p' s' L2 where
      h: "L = L1 @ (p', s') # L2" "nd = (p', Text s')"
         "k = off - (cur + int (length s) + textLength L1)"
         "off \<le> cur + int (length s) + textLength L1 + int (length s')"
         "L1 \<noteq> [] \<longrightarrow> cur + int (length s) + textLength L1 < off"
      by blast
    have "cur + textLength ((p, s) # L1) < off"
      using h(5) False by (cases L1) auto
    with h t show ?thesis
      by (intro exI[of _ "(p, s) # L1"] exI[of _ p'] exI[of _ s'] exI[of _ L2]) (simp add: algebra_simps)
  qed
qed

lemma boundaryPosition_self:
  "boundaryPosition (p, a) (p, b) = (if a = b then Equal else if a < b then Before else After)"
  by (induction p) auto

lemma boundaryPosition_append:
  "boundaryPosition (q @ x, a) (q @ y, b) = boundaryPosition (x, a) (y, b)"
  by (induction q) auto

lemma boundaryPosition_first: "boundaryPosition (p, a) ([], 0) \<noteq> Before"
  by (cases p) auto

lemma textNodes_paths:
  "t \<in> set (textNodes p n) \<Longrightarrow> \<exists>r. fst t = p @ r"
  "t \<in> set (textNodesFrom p i cs) \<Longrightarrow> \<exists>j r. fst t = p @ j # r \<and> i \<le> j"
proof (induction p n and p i cs arbitrary: t and t rule: textNodes_textNodesFrom.induct)
  case (5 p i c cs)
  from "5.prems" consider "t \<in> set (textNodes (p @ [i]) c)" | "t \<in> set (textNodesFrom p (Suc i) cs)"
    by auto
  then show ?case
  proof cases
    case 1
    from "5.IH"(1)[OF this] obtain r where "fst t = (p @ [i]) @ r" by blast
    then show ?thesis by auto
  next
    case 2
    from "5.IH"(2)[OF this] obtain j r where "fst t = p @ j # r" "Suc i \<le> j" by blast
    then show ?thesis by (intro exI[of _ j] exI[of _ r]) simp
  qed
qed auto

lemma textNodes_sorted:
  "sorted_wrt strictlyBefore (textNodes p n)"
  "sorted_wrt strictlyBefore (textNodesFrom p i cs)"
proof (induction p n and p i cs rule: textNodes_textNodesFrom.induct)
  case (5 p i c cs)
  have "strictlyBefore t u"
    if t: "t \<in> set (textNodes (p @ [i]) c)" and u: "u \<in> set (textNodesFrom p (Suc i) cs)" for t u
  proof -
    from textNodes_paths(1)[OF t] obtain r where r: "fst t = p @ i # r" by auto
    from textNodes_paths(2)[OF u] obtain j r' where j: "fst u = p @ j # r'" "Suc i \<le> j" by blast
    show ?thesis unfolding strictlyBefore_def r j(1) boundaryPosition_append
      using j(2) by simp
  qed
  with 5 show ?case by (simp add: sorted_wrt_append)
qed auto

lemma textNodes_text:
  "concat (map snd (textNodes p n)) = descendantText n"
  "concat (map snd (textNodesFrom p i cs)) = concat (map descendantText cs)"
  by (induction p n and p i cs rule: textNodes_textNodesFrom.induct) auto

lemma textNodes_valid:
  "validTree n \<Longrightarrow> t \<in> set (textNodes p n) \<Longrightarrow> length (snd t) < 2 ^ 32"
  "list_all validTree cs \<Longrightarrow> t \<in> set (textNodesFrom p i cs) \<Longrightarrow> length (snd t) < 2 ^ 32"
  by (induction p n and p i cs arbitrary: t and t rule: textNodes_textNodesFrom.induct) auto


lemma toUnsignedLong_id: "0 \<le> k \<Longrightarrow> k < 2 ^ 32 \<Longrightarrow> toUnsignedLong k = nat k"
  by (simp add: toUnsignedLong_def)

lemma walker_Element: "createTreeWalker_SHOW_TEXT (Element cs) = textNodes [] (Element cs)"
  by (simp add: createTreeWalker_SHOW_TEXT_def)

lemma walker_nonempty_path: "t \<in> set (createTreeWalker_SHOW_TEXT root) \<Longrightarrow> fst t \<noteq> []"
  unfolding createTreeWalker_SHOW_TEXT_def by (auto dest: textNodes_paths(2))

lemma walker_textLength:
  "textLength (createTreeWalker_SHOW_TEXT (Element cs)) = int (length (textContent (Element cs)))"
  by (simp add: createTreeWalker_SHOW_TEXT_def textLength_def textNodes_text)

lemma placeCaret_text:
  assumes "p \<noteq> []" "0 \<le> k" "k \<le> int (length s)" "length s < 2 ^ 32"
  shows "placeCaret element (p, Text s) k w =
           Inr (w\<lparr>selection := map_option (\<lambda>rs. [caret (p, Text s) (nat k)]) (selection w)\<rparr>)"
proof -
  from assms have u: "toUnsignedLong k = nat k" by (intro toUnsignedLong_id) auto
  obtain i r where p: "p = i # r" using assms(1) by (cases p) auto
  have m: "min k (int (length s)) = k" using assms by simp
  show ?thesis
    unfolding placeCaret_def textContent.simps snd_conv m Range_setStart_def Let_def u
    using assms(2,3)
    by (cases "selection w")
       (simp_all add: p createRange_def Range_collapse_def removeAllRanges_def addRange_def caret_def)
qed

lemma placeCaret_element:
  "placeCaret element ([], element) 0 w =
     Inr (w\<lparr>selection := map_option (\<lambda>rs. [caret ([], element) 0]) (selection w)\<rparr>)"
  by (cases "selection w")
     (simp_all add: placeCaret_def Range_setStart_def toUnsignedLong_def createRange_def
        Range_collapse_def removeAllRanges_def addRange_def caret_def)

lemma preRange_start:
  "Range_setStart (createRange element) ([], element) 0 = Inr (createRange element)"
  by (simp add: Range_setStart_def toUnsignedLong_def createRange_def)

lemma preRange_end:
  assumes "k \<le> nodeLength (snd nd)" "k < 2 ^ 32"
  shows "Range_setEnd (createRange element) nd (int k) =
           Inr \<lparr>startContainer = ([], element), startOffset = 0,
                endContainer = nd, endOffset = k\<rparr>"
proof -
  have u: "toUnsignedLong (int k) = k" using assms(2) by (simp add: toUnsignedLong_id)
  have "boundaryPosition (fst nd, k) ([], 0) \<noteq> Before" by (rule boundaryPosition_first)
  then show ?thesis unfolding Range_setEnd_def Let_def u using assms(1)
    by (simp add: createRange_def)
qed

lemma getCursorPosition_range:
  assumes "selection w = Some (rng # rs)"
    and "startOffset rng \<le> nodeLength (snd (startContainer rng))" "startOffset rng < 2 ^ 32"
  shows "getCursorPosition element w =
     Inr (Some \<lparr>offset = int (length (Range_toString element
                    \<lparr>startContainer = ([], element), startOffset = 0,
                     endContainer = startContainer rng, endOffset = startOffset rng\<rparr>)),
                node = Some (startContainer rng), line = None, column = None\<rparr>)"
  unfolding getCursorPosition_def using assms(1)
  by (simp add: Let_def preRange_start preRange_end[OF assms(2,3)])

lemma filter_contained:
  assumes s: "sorted_wrt strictlyBefore (L1 @ (p, s) # L2)"
    and ne: "\<forall>t\<in>set (L1 @ (p, s) # L2). fst t \<noteq> []"
    and k: "k \<le> length s"
  shows "filter (contained \<lparr>startContainer = ([], root), startOffset = 0,
                            endContainer = (p, nd), endOffset = k\<rparr>) (L1 @ (p, s) # L2) = L1"
proof -
  let ?r = "\<lparr>startContainer = ([], root), startOffset = 0, endContainer = (p, nd), endOffset = k\<rparr>"
  have after: "boundaryPosition (q, 0) ([], 0) = After" if "q \<noteq> []" for q
    using that by (cases q) auto
  have 1: "contained ?r t" if "t \<in> set L1" for t
  proof -
    from s that have "strictlyBefore t (p, s)" by (auto simp: sorted_wrt_append)
    moreover from ne that have "fst t \<noteq> []" by auto
    ultimately show ?thesis by (simp add: contained_def strictlyBefore_def after)
  qed
  have 2: "\<not> contained ?r (p, s)"
    using k by (simp add: contained_def boundaryPosition_self)
  have 3: "\<not> contained ?r t" if "t \<in> set L2" for t
  proof -
    from s that have "strictlyBefore (p, s) t" by (auto simp: sorted_wrt_append)
    then show ?thesis by (simp add: contained_def strictlyBefore_def)
  qed
  have "filter (contained ?r) L1 = L1" using 1 by (simp add: filter_id_conv)
  moreover have "filter (contained ?r) L2 = []" using 3 by (simp add: filter_empty_conv)
  ultimately show ?thesis using 2 by simp
qed

lemma Range_toString_text:
  assumes L: "textNodes [] (Element cs) = L1 @ (p, s) # L2" and k: "k \<le> length s"
  shows "Range_toString (Element cs)
           \<lparr>startContainer = ([], Element cs), startOffset = 0,
            endContainer = (p, Text s), endOffset = k\<rparr> = concat (map snd L1) @ take k s"
proof -
  have s: "sorted_wrt strictlyBefore (L1 @ (p, s) # L2)"
    using textNodes_sorted(1)[of "[]" "Element cs"] L by simp
  have ne: "\<forall>t\<in>set (L1 @ (p, s) # L2). fst t \<noteq> []"
    using walker_nonempty_path[of _ "Element cs"] L by (simp add: walker_Element)
  then have p: "p \<noteq> []" by auto
  show ?thesis
    unfolding Range_toString_def L filter_contained[OF s ne k]
    using p by auto
qed

section \<open>Round trip\<close>

text \<open>
  C1: for every tree (an element with its subtree) and every integer offset from 0 to the
  total length of its text, setting the cursor at the offset with \<open>setCursorPosition\<close> and
  reading it back with \<open>getCursorPosition\<close> yields exactly that offset.
\<close>

theorem C1_round_trip:
  assumes valid: "validTree (Element cs)"
    and lo: "0 \<le> offset pos"
    and hi: "offset pos \<le> int (length (textContent (Element cs)))"
    and sel: "selection w = Some rs"
  shows "\<exists>w' nd. setCursorPosition (Element cs) pos w = Inr w' \<and>
           getCursorPosition (Element cs) w' =
             Inr (Some \<lparr>offset = offset pos, node = Some nd, line = None, column = None\<rparr>)"
proof (cases "findTarget (createTreeWalker_SHOW_TEXT (Element cs)) 0 (offset pos)")
  case None
  let ?e = "Element cs"
  from None hi have empty: "createTreeWalker_SHOW_TEXT ?e = []"
    by (simp add: findTarget_None_iff walker_textLength)
  have "textLength (createTreeWalker_SHOW_TEXT ?e) = 0" unfolding empty by simp
  then have "int (length (textContent ?e)) = 0" unfolding walker_textLength .
  with lo hi have o: "offset pos = 0" by linarith
  let ?w = "w\<lparr>selection := Some [caret ([], ?e) 0]\<rparr>"
  have set: "setCursorPosition ?e pos w = Inr ?w"
    using None sel by (simp add: setCursorPosition_def setCursorPosition_target_def
        try_catch_def placeCaret_element)
  have "textNodes [] ?e = []" using empty by (simp add: walker_Element)
  then have str: "Range_toString ?e \<lparr>startContainer = ([], ?e), startOffset = 0,
      endContainer = ([], ?e), endOffset = 0\<rparr> = []"
    by (simp add: Range_toString_def)
  have "getCursorPosition ?e ?w =
      Inr (Some \<lparr>offset = 0, node = Some ([], ?e), line = None, column = None\<rparr>)"
    by (subst getCursorPosition_range[where rng = "caret ([], ?e) 0" and rs = "[]"])
       (simp_all add: caret_def str)
  with set o show ?thesis by auto
next
  case (Some t)
  let ?e = "Element cs"
  obtain nd k where t: "t = (nd, k)" by (cases t)
  from findTarget_Some[OF Some[unfolded t]] obtain L1 p s L2 where
    L: "createTreeWalker_SHOW_TEXT ?e = L1 @ (p, s) # L2" and nd: "nd = (p, Text s)"
    and k: "k = offset pos - textLength L1"
    and le: "offset pos \<le> textLength L1 + int (length s)"
    and lt: "L1 \<noteq> [] \<longrightarrow> textLength L1 < offset pos"
    by auto
  have k0: "0 \<le> k" using lt lo k by (cases L1) auto
  have k1: "k \<le> int (length s)" using le k by simp
  have mem: "(p, s) \<in> set (textNodes [] ?e)" using L by (simp add: walker_Element)
  have p: "p \<noteq> []" using walker_nonempty_path[of "(p, s)" ?e] L by simp
  have len: "length s < 2 ^ 32" using textNodes_valid(1)[OF valid mem] by simp
  let ?w = "w\<lparr>selection := Some [caret (p, Text s) (nat k)]\<rparr>"
  have set: "setCursorPosition ?e pos w = Inr ?w"
    using Some sel by (simp add: setCursorPosition_def setCursorPosition_target_def
        try_catch_def t nd placeCaret_text[OF p k0 k1 len])
  have L': "textNodes [] ?e = L1 @ (p, s) # L2" using L by (simp add: walker_Element)
  have nk: "nat k \<le> length s" using k1 by simp
  have "length (Range_toString ?e \<lparr>startContainer = ([], ?e), startOffset = 0,
      endContainer = (p, Text s), endOffset = nat k\<rparr>) = length (concat (map snd L1)) + nat k"
    unfolding Range_toString_text[OF L' nk] using nk by simp
  then have str: "int (length (Range_toString ?e \<lparr>startContainer = ([], ?e), startOffset = 0,
      endContainer = (p, Text s), endOffset = nat k\<rparr>)) = offset pos"
    using k k0 by (simp add: textLength_def)
  have "getCursorPosition ?e ?w =
      Inr (Some \<lparr>offset = offset pos, node = Some (p, Text s), line = None, column = None\<rparr>)"
    using nk len
    by (subst getCursorPosition_range[where rng = "caret (p, Text s) (nat k)" and rs = "[]"])
       (simp_all add: caret_def str)
  with set show ?thesis by auto
qed


theorem C1_witness:
  "validTree twoLeaves \<and> 0 \<le> offset (positionAt 4) \<and>
   offset (positionAt 4) \<le> int (length (textContent twoLeaves)) \<and>
   selection emptyWindow = Some [] \<and>
   (\<exists>w' nd. setCursorPosition twoLeaves (positionAt 4) emptyWindow = Inr w' \<and>
      getCursorPosition twoLeaves w' =
        Inr (Some \<lparr>offset = 4, node = Some nd, line = None, column = None\<rparr>))"
proof -
  have 1: "validTree (Element [Text (js ''abc''), Text (js ''de'')])" by (simp add: js_def)
  have 2: "0 \<le> offset (positionAt 4)" by (simp add: positionAt_def)
  have 3: "offset (positionAt 4) \<le> int (length (textContent (Element [Text (js ''abc''), Text (js ''de'')])))"
    by (simp add: positionAt_def js_def)
  have 4: "selection emptyWindow = Some []" by (simp add: emptyWindow_def)
  from C1_round_trip[OF 1 2 3 4] 1 2 3 4 show ?thesis
    by (simp add: twoLeaves_def positionAt_def)
qed

section \<open>Leaf boundaries\<close>

lemma cumulativeLength_Suc:
  "n < length L \<Longrightarrow>
   cumulativeLength L (Suc n) = cumulativeLength L n + int (length (snd (L ! n)))"
  by (simp add: cumulativeLength_def take_Suc_conv_app_nth textLength_def)

lemma cumulativeLength_mono:
  "m \<le> n \<Longrightarrow> cumulativeLength L m \<le> cumulativeLength L n"
proof -
  assume "m \<le> n"
  then have "take n L = take m L @ take (n - m) (drop m L)"
    by (metis le_add_diff_inverse take_add)
  then have "cumulativeLength L n = cumulativeLength L m + textLength (take (n - m) (drop m L))"
    by (simp add: cumulativeLength_def)
  then show ?thesis using textLength_nonneg[of "take (n - m) (drop m L)"] by simp
qed

lemma cumulativeLength_le_total: "cumulativeLength L n \<le> textLength L"
  using cumulativeLength_mono[of n "max n (length L)" L] by (simp add: cumulativeLength_def)

lemma findTarget_boundary:
  assumes i: "i < length L" and c: "0 < cumulativeLength L (Suc i)"
  shows "\<exists>j\<le>i. findTarget L 0 (cumulativeLength L (Suc i)) =
            Some ((fst (L ! j), Text (snd (L ! j))), int (length (snd (L ! j)))) \<and>
          0 < length (snd (L ! j)) \<and>
          cumulativeLength L (Suc j) = cumulativeLength L (Suc i) \<and>
          (\<forall>j'<j. cumulativeLength L (Suc j') < cumulativeLength L (Suc i)) \<and>
          (0 < length (snd (L ! i)) \<longrightarrow> j = i)"
proof -
  let ?c = "cumulativeLength L (Suc i)"
  have "findTarget L 0 ?c \<noteq> None"
    using i cumulativeLength_le_total[of L "Suc i"] by (auto simp: findTarget_None_iff)
  then obtain nd k where f: "findTarget L 0 ?c = Some (nd, k)" by auto
  from findTarget_Some[OF f] obtain L1 p s L2 where
    L: "L = L1 @ (p, s) # L2" and nd: "nd = (p, Text s)"
    and k: "k = ?c - textLength L1"
    and le: "?c \<le> textLength L1 + int (length s)"
    and lt: "L1 \<noteq> [] \<longrightarrow> textLength L1 < ?c"
    by auto
  let ?j = "length L1"
  have Lj: "L ! ?j = (p, s)" and jl: "?j < length L" using L by auto
  have cj: "cumulativeLength L ?j = textLength L1" using L by (simp add: cumulativeLength_def)
  have cSj: "cumulativeLength L (Suc ?j) = textLength L1 + int (length s)"
    using cumulativeLength_Suc[OF jl] cj Lj by simp
  have ji: "?j \<le> i"
  proof (rule ccontr)
    assume "\<not> ?j \<le> i"
    then have "Suc i \<le> ?j" "L1 \<noteq> []" by auto
    with cumulativeLength_mono[of "Suc i" ?j L] cj lt show False by simp
  qed
  then have "cumulativeLength L (Suc ?j) \<le> ?c" by (intro cumulativeLength_mono) simp
  with le cSj have eq: "cumulativeLength L (Suc ?j) = ?c" by simp
  with cSj k have kk: "k = int (length s)" by simp
  have pos: "0 < length s" using lt c eq cSj by (cases "L1 = []") auto
  have first: "\<forall>j'<?j. cumulativeLength L (Suc j') < ?c"
  proof (intro allI impI)
    fix j' assume j': "j' < ?j"
    then have "L1 \<noteq> []" by auto
    with lt have "textLength L1 < ?c" by simp
    moreover have "cumulativeLength L (Suc j') \<le> cumulativeLength L ?j"
      using j' by (intro cumulativeLength_mono) simp
    ultimately show "cumulativeLength L (Suc j') < ?c" using cj by simp
  qed
  have same: "?j = i" if "0 < length (snd (L ! i))"
  proof (rule ccontr)
    assume "?j \<noteq> i"
    with ji have "Suc ?j \<le> i" by simp
    then have "cumulativeLength L (Suc ?j) \<le> cumulativeLength L i" by (rule cumulativeLength_mono)
    with cumulativeLength_Suc[OF i] that eq show False by simp
  qed
  show ?thesis
    using ji f nd kk Lj pos eq first same by (intro exI[of _ ?j]) simp
qed

lemma walker_twoLeaves:
  "createTreeWalker_SHOW_TEXT twoLeaves = [([0], js ''abc''), ([1], js ''de'')]"
  by (simp add: createTreeWalker_SHOW_TEXT_def twoLeaves_def)

text \<open>
  C2: when the target offset \<open>c > 0\<close> is the cumulative end of a leaf, the walk resolves to
  the earliest leaf that ends at \<open>c\<close>, at the local offset equal to that leaf's length
  (which is positive), never to offset 0 of a later leaf; this is the given leaf itself
  whenever that leaf is not empty.  For the leaves "abc" and "de", offset 3 resolves to the
  first leaf at local offset 3 and offset 5 to the second leaf at local offset 2.
\<close>

theorem C2_boundary_tie_break:
  "(\<forall>i. i < length (createTreeWalker_SHOW_TEXT element) \<and>
        0 < cumulativeLength (createTreeWalker_SHOW_TEXT element) (Suc i) \<longrightarrow>
     (\<exists>j\<le>i. findTarget (createTreeWalker_SHOW_TEXT element) 0
                (cumulativeLength (createTreeWalker_SHOW_TEXT element) (Suc i)) =
              Some ((fst (createTreeWalker_SHOW_TEXT element ! j),
                     Text (snd (createTreeWalker_SHOW_TEXT element ! j))),
                    int (length (snd (createTreeWalker_SHOW_TEXT element ! j)))) \<and>
            0 < length (snd (createTreeWalker_SHOW_TEXT element ! j)) \<and>
            cumulativeLength (createTreeWalker_SHOW_TEXT element) (Suc j) =
              cumulativeLength (createTreeWalker_SHOW_TEXT element) (Suc i) \<and>
            (\<forall>j'<j. cumulativeLength (createTreeWalker_SHOW_TEXT element) (Suc j') <
                     cumulativeLength (createTreeWalker_SHOW_TEXT element) (Suc i)) \<and>
            (0 < length (snd (createTreeWalker_SHOW_TEXT element ! i)) \<longrightarrow> j = i))) \<and>
   findTarget (createTreeWalker_SHOW_TEXT twoLeaves) 0 3 = Some (([0], Text (js ''abc'')), 3) \<and>
   findTarget (createTreeWalker_SHOW_TEXT twoLeaves) 0 5 = Some (([1], Text (js ''de'')), 2)"
proof -
  have "findTarget (createTreeWalker_SHOW_TEXT twoLeaves) 0 3 = Some (([0], Text (js ''abc'')), 3)"
    unfolding walker_twoLeaves by (simp add: js_def)
  moreover
  have "findTarget (createTreeWalker_SHOW_TEXT twoLeaves) 0 5 = Some (([1], Text (js ''de'')), 2)"
    unfolding walker_twoLeaves by (simp add: js_def)
  ultimately show ?thesis using findTarget_boundary by blast
qed

theorem C2_witness:
  "0 < length (createTreeWalker_SHOW_TEXT twoLeaves) \<and>
   0 < cumulativeLength (createTreeWalker_SHOW_TEXT twoLeaves) (Suc 0) \<and>
   0 < length (snd (createTreeWalker_SHOW_TEXT twoLeaves ! 0)) \<and>
   findTarget (createTreeWalker_SHOW_TEXT twoLeaves) 0
     (cumulativeLength (createTreeWalker_SHOW_TEXT twoLeaves) (Suc 0)) =
       Some ((fst (createTreeWalker_SHOW_TEXT twoLeaves ! 0),
              Text (snd (createTreeWalker_SHOW_TEXT twoLeaves ! 0))),
             int (length (snd (createTreeWalker_SHOW_TEXT twoLeaves ! 0))))"
proof -
  have 1: "0 < length (createTreeWalker_SHOW_TEXT twoLeaves)"
    unfolding walker_twoLeaves by simp
  have 2: "0 < cumulativeLength (createTreeWalker_SHOW_TEXT twoLeaves) (Suc 0)"
    unfolding walker_twoLeaves by (simp add: cumulativeLength_def js_def)
  have 3: "0 < length (snd (createTreeWalker_SHOW_TEXT twoLeaves ! 0))"
    unfolding walker_twoLeaves by (simp add: js_def)
  from C2_boundary_tie_break[of twoLeaves] 1 2 3 show ?thesis by blast
qed

section \<open>Offsets beyond the text\<close>

lemma findTarget_beyond:
  "int (length (textContent (Element cs))) < k \<Longrightarrow>
   findTarget (createTreeWalker_SHOW_TEXT (Element cs)) 0 k = None"
  by (simp add: findTarget_None_iff walker_textLength)

lemma setCursorPosition_no_target:
  assumes "findTarget (createTreeWalker_SHOW_TEXT element) 0 (offset pos) = None"
  shows "setCursorPosition element pos w =
           Inr (w\<lparr>selection := map_option (\<lambda>rs. [caret ([], element) 0]) (selection w)\<rparr>)"
  using assms
  by (simp add: setCursorPosition_def setCursorPosition_target_def try_catch_def
      placeCaret_element)

lemma setCursorAtOffset_no_target:
  assumes "findTarget (createTreeWalker_SHOW_TEXT element) 0 k = None"
  shows "setCursorAtOffset element k w = Inr w"
  using assms by (simp add: setCursorAtOffset_def)

lemma textContent_twoLeaves: "int (length (textContent twoLeaves)) = 5"
  by (simp add: twoLeaves_def js_def)

lemma setCursorPosition_twoLeaves_5:
  "setCursorPosition twoLeaves (positionAt 5) emptyWindow =
     Inr \<lparr>selection = Some [caret ([1], Text (js ''de'')) 2], console = []\<rparr>"
proof -
  have f: "findTarget (createTreeWalker_SHOW_TEXT twoLeaves) 0 5 = Some (([1], Text (js ''de'')), 2)"
    unfolding walker_twoLeaves by (simp add: js_def)
  have "placeCaret twoLeaves ([1], Text (js ''de'')) 2 emptyWindow =
     Inr (emptyWindow\<lparr>selection := map_option (\<lambda>rs. [caret ([1], Text (js ''de'')) (nat 2)])
        (selection emptyWindow)\<rparr>)"
    by (rule placeCaret_text) (simp_all add: js_def)
  then show ?thesis
    by (simp add: setCursorPosition_def setCursorPosition_target_def f positionAt_def
        try_catch_def emptyWindow_def)
qed

lemma setCursorPosition_twoLeaves_9:
  "setCursorPosition twoLeaves (positionAt 9) emptyWindow =
     Inr \<lparr>selection = Some [caret ([], twoLeaves) 0], console = []\<rparr>"
proof -
  have "findTarget (createTreeWalker_SHOW_TEXT twoLeaves) 0 (offset (positionAt 9)) = None"
    unfolding walker_twoLeaves by (simp add: js_def positionAt_def)
  from setCursorPosition_no_target[OF this] show ?thesis by (simp add: emptyWindow_def)
qed

text \<open>
  C3 (as stated): an offset beyond the total length \<open>L\<close> resolves to the same position as
  \<open>L\<close>, the end of the last leaf; for the leaves "abc" and "de", offset 9 resolves to the
  second leaf at local offset 2.  The code does not clamp: at offset 9 the caret is not
  where it is at offset 5.
\<close>

theorem C3_counterexample:
  "int (length (textContent twoLeaves)) = 5 \<and>
   setCursorPosition twoLeaves (positionAt (5 + 4)) emptyWindow \<noteq>
     setCursorPosition twoLeaves (positionAt 5) emptyWindow \<and>
   setCursorPosition twoLeaves (positionAt 9) emptyWindow \<noteq>
     Inr \<lparr>selection = Some [caret ([1], Text (js ''de'')) 2], console = []\<rparr>"
  using setCursorPosition_twoLeaves_9
  by (simp add: textContent_twoLeaves setCursorPosition_twoLeaves_5 caret_def)

text \<open>
  C3 (amended): for every tree with total length \<open>L\<close> and every \<open>k > 0\<close>, the walk for
  \<open>L + k\<close> finds no text node; \<open>setCursorPosition\<close> then puts the caret into the element
  itself at offset 0 and \<open>setCursorAtOffset\<close> leaves the window as it is; neither signals
  an error.  For the leaves "abc" and "de", offset 9 gives the caret at the element with
  offset 0 (or no change), while offset 5 gives the second leaf at local offset 2.
\<close>

theorem C3_no_clamping:
  "(0 < k \<longrightarrow>
      findTarget (createTreeWalker_SHOW_TEXT (Element cs)) 0
        (int (length (textContent (Element cs))) + k) = None \<and>
      setCursorPosition (Element cs)
        (positionAt (int (length (textContent (Element cs))) + k)) w =
        Inr (w\<lparr>selection :=
               map_option (\<lambda>rs. [caret ([], Element cs) 0]) (selection w)\<rparr>) \<and>
      setCursorAtOffset (Element cs) (int (length (textContent (Element cs))) + k) w = Inr w) \<and>
   setCursorPosition twoLeaves (positionAt 9) emptyWindow =
     Inr \<lparr>selection = Some [caret ([], twoLeaves) 0], console = []\<rparr> \<and>
   setCursorAtOffset twoLeaves 9 emptyWindow = Inr emptyWindow \<and>
   setCursorPosition twoLeaves (positionAt 5) emptyWindow =
     Inr \<lparr>selection = Some [caret ([1], Text (js ''de'')) 2], console = []\<rparr>"
proof -
  have gen: "findTarget (createTreeWalker_SHOW_TEXT (Element cs)) 0
        (int (length (textContent (Element cs))) + k) = None" if "0 < k"
    using that by (intro findTarget_beyond) simp
  have "setCursorAtOffset twoLeaves 9 emptyWindow = Inr emptyWindow"
    by (rule setCursorAtOffset_no_target) (simp add: walker_twoLeaves js_def)
  with gen setCursorPosition_twoLeaves_9 setCursorPosition_twoLeaves_5
  show ?thesis
    by (auto simp: setCursorAtOffset_no_target
        intro!: setCursorPosition_no_target simp: positionAt_def)
qed

theorem C3_witness:
  "(0::int) < 4 \<and>
   setCursorAtOffset (Element [Text (js ''abc''), Text (js ''de'')])
     (int (length (textContent (Element [Text (js ''abc''), Text (js ''de'')]))) + 4)
     emptyWindow = Inr emptyWindow"
  using C3_no_clamping[of 4 "[Text (js ''abc''), Text (js ''de'')]" emptyWindow]
  by simp

section \<open>Trees without text\<close>

lemma textNodes_lookup:
  "t \<in> set (textNodes p n) \<Longrightarrow> \<exists>r. fst t = p @ r \<and> lookup n r = Some (Text (snd t))"
  "t \<in> set (textNodesFrom p i cs) \<Longrightarrow>
     \<exists>j r. fst t = p @ (i + j) # r \<and> j < length cs \<and> lookup (cs ! j) r = Some (Text (snd t))"
proof (induction p n and p i cs arbitrary: t and t rule: textNodes_textNodesFrom.induct)
  case (3 p cs)
  from "3.IH"[of t] "3.prems" obtain j r where
    "fst t = p @ j # r" "j < length cs" "lookup (cs ! j) r = Some (Text (snd t))" by auto
  then show ?case by (intro exI[of _ "j # r"]) simp
next
  case (5 p i c cs)
  from "5.prems" consider "t \<in> set (textNodes (p @ [i]) c)" | "t \<in> set (textNodesFrom p (Suc i) cs)"
    by auto
  then show ?case
  proof cases
    case 1
    from "5.IH"(1)[OF this] obtain r where "fst t = (p @ [i]) @ r" "lookup c r = Some (Text (snd t))"
      by blast
    then show ?thesis by (intro exI[of _ 0] exI[of _ r]) simp
  next
    case 2
    from "5.IH"(2)[OF this] obtain j r where
      "fst t = p @ (Suc i + j) # r" "j < length cs" "lookup (cs ! j) r = Some (Text (snd t))"
      by blast
    then show ?thesis by (intro exI[of _ "Suc j"] exI[of _ r]) simp
  qed
qed auto

lemma findTarget_member:
  "findTarget L cur off = Some (nd, k) \<Longrightarrow> \<exists>s. snd nd = Text s \<and> (fst nd, s) \<in> set L"
  by (drule findTarget_Some) auto

lemma setCursorPosition_target_in_tree:
  "lookup (Element cs) (fst (fst (setCursorPosition_target (Element cs) off))) =
     Some (snd (fst (setCursorPosition_target (Element cs) off)))"
proof (cases "findTarget (createTreeWalker_SHOW_TEXT (Element cs)) 0 off")
  case None
  then show ?thesis by (simp add: setCursorPosition_target_def)
next
  case (Some t)
  obtain nd k where t: "t = (nd, k)" by (cases t)
  from findTarget_member[OF Some[unfolded t]] obtain s where
    s: "snd nd = Text s" "(fst nd, s) \<in> set (textNodes [] (Element cs))"
    by (auto simp: walker_Element)
  from textNodes_lookup(1)[OF s(2)] s(1) have "lookup (Element cs) (fst nd) = Some (snd nd)"
    by auto
  with Some t show ?thesis by (simp add: setCursorPosition_target_def)
qed

text \<open>
  C8: for every tree without text nodes, the target of \<open>setCursorPosition\<close> for offset 0 is
  the element itself with offset 0, and the caret is placed there; and for every tree and
  every offset the target is a node of the tree, so there is no outcome "not found" at all.
\<close>

theorem C8_empty_tree:
  "(createTreeWalker_SHOW_TEXT (Element cs) = [] \<longrightarrow>
      setCursorPosition_target (Element cs) 0 = (([], Element cs), 0) \<and>
      setCursorPosition (Element cs) (positionAt 0) w =
        Inr (w\<lparr>selection :=
               map_option (\<lambda>rs. [caret ([], Element cs) 0]) (selection w)\<rparr>)) \<and>
   lookup (Element cs) (fst (fst (setCursorPosition_target (Element cs) off))) =
     Some (snd (fst (setCursorPosition_target (Element cs) off)))"
proof -
  have "setCursorPosition_target (Element cs) 0 = (([], Element cs), 0)"
    if "createTreeWalker_SHOW_TEXT (Element cs) = []"
    using that by (simp add: setCursorPosition_target_def)
  moreover have "setCursorPosition (Element cs) (positionAt 0) w =
        Inr (w\<lparr>selection := map_option (\<lambda>rs. [caret ([], Element cs) 0]) (selection w)\<rparr>)"
    if "createTreeWalker_SHOW_TEXT (Element cs) = []"
    using that by (intro setCursorPosition_no_target) simp
  ultimately show ?thesis using setCursorPosition_target_in_tree by blast
qed

theorem C8_witness:
  "createTreeWalker_SHOW_TEXT (Element [Element [], Comment (js ''x'')]) = [] \<and>
   setCursorPosition (Element [Element [], Comment (js ''x'')]) (positionAt 0) emptyWindow =
     Inr \<lparr>selection = Some [caret ([], Element [Element [], Comment (js ''x'')]) 0],
          console = []\<rparr>"
proof -
  have 1: "createTreeWalker_SHOW_TEXT (Element [Element [], Comment (js ''x'')]) = []"
    by (simp add: createTreeWalker_SHOW_TEXT_def)
  from C8_empty_tree[of "[Element [], Comment (js ''x'')]" emptyWindow 0] 1
  show ?thesis by (simp add: emptyWindow_def)
qed

section \<open>Failures of the caret placement\<close>

lemma Selection_addRange_connected: "Selection_addRange True r w = addRange r w"
  by (simp add: Selection_addRange_def)

lemma applyPosition_connected: "applyPosition True element nd off w = placeCaret element nd off w"
  by (simp add: applyPosition_def placeCaret_def Selection_addRange_connected
      split: sum.splits)

lemma setCursorPositionOn_connected:
  "setCursorPositionOn True element pos w = setCursorPosition element pos w"
  by (simp add: setCursorPositionOn_def setCursorPosition_def applyPosition_connected)

lemma setCursorAtOffsetOn_connected:
  "setCursorAtOffsetOn True element k w = setCursorAtOffset element k w"
  by (simp add: setCursorAtOffsetOn_def setCursorAtOffset_def applyPosition_connected
      split: option.splits prod.splits)

lemma applyPosition_fails_iff:
  "(\<exists>e. applyPosition inDocument element nd off w = Inl e) \<longleftrightarrow>
     nodeLength (snd nd) < toUnsignedLong (min off (int (length (textContent (snd nd)))))"
  by (auto simp: applyPosition_def Range_setStart_def Let_def)

lemma applyPosition_text:
  assumes "0 \<le> k" "k \<le> int (length s)" "length s < 2 ^ 32"
  shows "\<exists>r. applyPosition inDocument element (p, Text s) k w =
           Inr (Selection_addRange inDocument r (removeAllRanges w))"
proof -
  from assms have u: "toUnsignedLong k = nat k" by (intro toUnsignedLong_id) auto
  have m: "min k (int (length s)) = k" using assms by simp
  show ?thesis
    unfolding applyPosition_def textContent.simps snd_conv m Range_setStart_def Let_def u
    using assms(1,2) by auto
qed

lemma applyPosition_element:
  "\<exists>r. applyPosition inDocument element ([], element) 0 w =
         Inr (Selection_addRange inDocument r (removeAllRanges w))"
  by (auto simp: applyPosition_def Range_setStart_def toUnsignedLong_def createRange_def)

lemma target_applies:
  assumes valid: "validTree (Element cs)" and lo: "0 \<le> k"
    and t: "setCursorPosition_target (Element cs) k = (nd, off)"
  shows "\<exists>r. applyPosition inDocument (Element cs) nd off w =
           Inr (Selection_addRange inDocument r (removeAllRanges w))"
proof (cases "findTarget (createTreeWalker_SHOW_TEXT (Element cs)) 0 k")
  case None
  with t have "nd = ([], Element cs)" "off = 0" by (simp_all add: setCursorPosition_target_def)
  with applyPosition_element show ?thesis by simp
next
  case (Some u)
  with t have f: "findTarget (createTreeWalker_SHOW_TEXT (Element cs)) 0 k = Some (nd, off)"
    by (simp add: setCursorPosition_target_def)
  from findTarget_Some[OF f] obtain L1 p s L2 where
    L: "createTreeWalker_SHOW_TEXT (Element cs) = L1 @ (p, s) # L2" and nd: "nd = (p, Text s)"
    and k: "off = k - textLength L1"
    and le: "k \<le> textLength L1 + int (length s)"
    and lt: "L1 \<noteq> [] \<longrightarrow> textLength L1 < k"
    by auto
  have k0: "0 \<le> off" using lt lo k by (cases L1) auto
  have k1: "off \<le> int (length s)" using le k by simp
  have mem: "(p, s) \<in> set (textNodes [] (Element cs))" using L by (simp add: walker_Element)
  have len: "length s < 2 ^ 32" using textNodes_valid(1)[OF valid mem] by simp
  from applyPosition_text[OF k0 k1 len] nd show ?thesis by simp
qed

lemma setCursorPositionOn_no_failure:
  assumes "validTree (Element cs)" "0 \<le> offset pos"
  shows "\<exists>r. setCursorPositionOn inDocument (Element cs) pos w =
           Inr (Selection_addRange inDocument r (removeAllRanges w))"
proof -
  obtain nd off where t: "setCursorPosition_target (Element cs) (offset pos) = (nd, off)"
    by (cases "setCursorPosition_target (Element cs) (offset pos)")
  from target_applies[OF assms t] obtain r where
    "applyPosition inDocument (Element cs) nd off w =
       Inr (Selection_addRange inDocument r (removeAllRanges w))" by blast
  with t show ?thesis by (auto simp: setCursorPositionOn_def try_catch_def)
qed

lemma setCursorAtOffsetOn_no_failure:
  assumes "validTree (Element cs)" "0 \<le> k"
    and f: "findTarget (createTreeWalker_SHOW_TEXT (Element cs)) 0 k = Some (nd, off)"
  shows "\<exists>r. setCursorAtOffsetOn inDocument (Element cs) k w =
           Inr (Selection_addRange inDocument r (removeAllRanges w))"
proof -
  from f have t: "setCursorPosition_target (Element cs) k = (nd, off)"
    by (simp add: setCursorPosition_target_def)
  from target_applies[OF assms(1,2) t] obtain r where
    "applyPosition inDocument (Element cs) nd off w =
       Inr (Selection_addRange inDocument r (removeAllRanges w))" by blast
  with f show ?thesis by (auto simp: setCursorAtOffsetOn_def try_catch_def)
qed

lemma console_Selection_addRange:
  "console (Selection_addRange inDocument r (removeAllRanges w)) = console w"
  by (simp add: Selection_addRange_def addRange_def removeAllRanges_def)

text \<open>
  C9 (as stated): for every input position, including a node that is no longer attached to
  the document, where \<open>range.setStart\<close> raises, the failure is caught and logged and no
  exception leaves \<open>setCursorPosition\<close> or \<open>setCursorAtOffset\<close>.  For a detached element
  \<open>setStart\<close> does not raise and nothing is logged: the ranges of the selection are removed
  and the new range is ignored without a word.
\<close>

theorem C9_counterexample:
  "applyPosition False twoLeaves ([0], Text (js ''abc'')) 3
     \<lparr>selection = Some [caret ([1], Text (js ''de'')) 1], console = []\<rparr> =
     Inr \<lparr>selection = Some [], console = []\<rparr> \<and>
   setCursorPositionOn False twoLeaves (positionAt 3)
     \<lparr>selection = Some [caret ([1], Text (js ''de'')) 1], console = []\<rparr> =
     Inr \<lparr>selection = Some [], console = []\<rparr> \<and>
   setCursorAtOffsetOn False twoLeaves 3
     \<lparr>selection = Some [caret ([1], Text (js ''de'')) 1], console = []\<rparr> =
     Inr \<lparr>selection = Some [], console = []\<rparr> \<and>
   setCursorPositionOn False twoLeaves (positionAt 3)
     \<lparr>selection = Some [caret ([1], Text (js ''de'')) 1], console = []\<rparr> \<noteq>
     Inr (console_warn ''Failed to set cursor position:'' IndexSizeError
            \<lparr>selection = Some [caret ([1], Text (js ''de'')) 1], console = []\<rparr>)"
proof -
  let ?w = "\<lparr>selection = Some [caret ([1], Text (js ''de'')) 1], console = []\<rparr>"
  have f: "findTarget (createTreeWalker_SHOW_TEXT twoLeaves) 0 3 = Some (([0], Text (js ''abc'')), 3)"
    unfolding walker_twoLeaves by (simp add: js_def)
  have a: "applyPosition False twoLeaves ([0], Text (js ''abc'')) 3 ?w =
      Inr \<lparr>selection = Some [], console = []\<rparr>"
    by (simp add: applyPosition_def Range_setStart_def toUnsignedLong_def js_def
        Selection_addRange_def removeAllRanges_def createRange_def)
  show ?thesis
    using a f
    by (simp add: setCursorPositionOn_def setCursorAtOffsetOn_def setCursorPosition_target_def
        positionAt_def try_catch_def console_warn_def)
qed

text \<open>
  C9 (amended): no exception leaves \<open>setCursorPosition\<close> or \<open>setCursorAtOffset\<close>, for every
  element, attached or not, every position and every window.  Placing the caret fails
  exactly when the offset handed to \<open>setStart\<close>, read as an \<open>unsigned long\<close>, exceeds the
  length of the target node; the failure is then caught, the warning is logged and the
  window is otherwise unchanged.  In a valid tree this never happens for an offset of at
  least 0, attached or not, and nothing is logged; for a detached element the ranges of the
  selection are removed and no caret is placed.
\<close>

theorem C9_never_throws:
  "(\<exists>w'. setCursorPositionOn inDocument element pos w = Inr w') \<and>
   (\<exists>w'. setCursorAtOffsetOn inDocument element k w = Inr w') \<and>
   ((\<exists>e. applyPosition inDocument element nd off w = Inl e) \<longleftrightarrow>
      nodeLength (snd nd) < toUnsignedLong (min off (int (length (textContent (snd nd)))))) \<and>
   (setCursorPosition_target element (offset pos) = (nd, off) \<and>
    applyPosition inDocument element nd off w = Inl e \<longrightarrow>
      setCursorPositionOn inDocument element pos w =
        Inr (console_warn ''Failed to set cursor position:'' e w)) \<and>
   (findTarget (createTreeWalker_SHOW_TEXT element) 0 k = Some (nd, off) \<and>
    applyPosition inDocument element nd off w = Inl e \<longrightarrow>
      setCursorAtOffsetOn inDocument element k w =
        Inr (console_warn ''Failed to set cursor position:'' e w)) \<and>
   (validTree (Element cs) \<and> 0 \<le> offset pos \<longrightarrow>
      (\<exists>w'. setCursorPositionOn inDocument (Element cs) pos w = Inr w' \<and>
            console w' = console w) \<and>
      setCursorPositionOn False (Element cs) pos w = Inr (removeAllRanges w)) \<and>
   (validTree (Element cs) \<and> 0 \<le> k \<longrightarrow>
      (\<exists>w'. setCursorAtOffsetOn inDocument (Element cs) k w = Inr w' \<and>
            console w' = console w) \<and>
      setCursorAtOffsetOn False (Element cs) k w =
        Inr (if findTarget (createTreeWalker_SHOW_TEXT (Element cs)) 0 k = None then w
             else removeAllRanges w)) \<and>
   setCursorPositionOn True element pos w = setCursorPosition element pos w \<and>
   setCursorAtOffsetOn True element k w = setCursorAtOffset element k w"
proof -
  have 1: "\<exists>w'. setCursorPositionOn inDocument element pos w = Inr w'"
    by (simp add: setCursorPositionOn_def split: prod.splits)
  have 2: "\<exists>w'. setCursorAtOffsetOn inDocument element k w = Inr w'"
    by (simp add: setCursorAtOffsetOn_def split: option.splits prod.splits)
  have 4: "setCursorPositionOn inDocument element pos w =
        Inr (console_warn ''Failed to set cursor position:'' e w)"
    if "setCursorPosition_target element (offset pos) = (nd, off)"
      "applyPosition inDocument element nd off w = Inl e"
    using that by (simp add: setCursorPositionOn_def try_catch_def)
  have 5: "setCursorAtOffsetOn inDocument element k w =
        Inr (console_warn ''Failed to set cursor position:'' e w)"
    if "findTarget (createTreeWalker_SHOW_TEXT element) 0 k = Some (nd, off)"
      "applyPosition inDocument element nd off w = Inl e"
    using that by (simp add: setCursorAtOffsetOn_def try_catch_def)
  have 6: "(\<exists>w'. setCursorPositionOn inDocument (Element cs) pos w = Inr w' \<and>
            console w' = console w) \<and>
      setCursorPositionOn False (Element cs) pos w = Inr (removeAllRanges w)"
    if v: "validTree (Element cs)" "0 \<le> offset pos"
  proof -
    from setCursorPositionOn_no_failure[OF v, of inDocument w] console_Selection_addRange
    have a: "\<exists>w'. setCursorPositionOn inDocument (Element cs) pos w = Inr w' \<and>
            console w' = console w" by auto
    from setCursorPositionOn_no_failure[OF v, of False w]
    have "setCursorPositionOn False (Element cs) pos w = Inr (removeAllRanges w)"
      by (simp add: Selection_addRange_def)
    with a show ?thesis by simp
  qed
  have 7: "(\<exists>w'. setCursorAtOffsetOn inDocument (Element cs) k w = Inr w' \<and>
            console w' = console w) \<and>
      setCursorAtOffsetOn False (Element cs) k w =
        Inr (if findTarget (createTreeWalker_SHOW_TEXT (Element cs)) 0 k = None then w
             else removeAllRanges w)"
    if v: "validTree (Element cs)" "0 \<le> k"
  proof (cases "findTarget (createTreeWalker_SHOW_TEXT (Element cs)) 0 k")
    case None
    then show ?thesis by (simp add: setCursorAtOffsetOn_def)
  next
    case (Some u)
    obtain nd' off' where u: "u = (nd', off')" by (cases u)
    note f = Some[unfolded u]
    from setCursorAtOffsetOn_no_failure[OF v f, of inDocument w] console_Selection_addRange
    have a: "\<exists>w'. setCursorAtOffsetOn inDocument (Element cs) k w = Inr w' \<and>
            console w' = console w" by auto
    from setCursorAtOffsetOn_no_failure[OF v f, of False w]
    have "setCursorAtOffsetOn False (Element cs) k w = Inr (removeAllRanges w)"
      by (simp add: Selection_addRange_def)
    with a f show ?thesis by simp
  qed
  from 1 2 applyPosition_fails_iff[of inDocument element nd off w] 4 5 6 7
    setCursorPositionOn_connected[of element pos w] setCursorAtOffsetOn_connected[of element k w]
  show ?thesis by blast
qed


theorem C9_witness:
  "setCursorPosition_target twoLeaves (offset (positionAt (- 1))) =
     (([0], Text (js ''abc'')), - 1) \<and>
   findTarget (createTreeWalker_SHOW_TEXT twoLeaves) 0 (- 1) =
     Some (([0], Text (js ''abc'')), - 1) \<and>
   applyPosition False twoLeaves ([0], Text (js ''abc'')) (- 1) emptyWindow =
     Inl IndexSizeError \<and>
   setCursorPositionOn False twoLeaves (positionAt (- 1)) emptyWindow =
     Inr \<lparr>selection = Some [],
          console = [(''Failed to set cursor position:'', IndexSizeError)]\<rparr> \<and>
   setCursorAtOffsetOn False twoLeaves (- 1) emptyWindow =
     Inr \<lparr>selection = Some [],
          console = [(''Failed to set cursor position:'', IndexSizeError)]\<rparr> \<and>
   validTree (Element [Text (js ''abc''), Text (js ''de'')]) \<and>
   0 \<le> offset (positionAt 3) \<and> (0::int) \<le> 3 \<and>
   setCursorPositionOn False (Element [Text (js ''abc''), Text (js ''de'')]) (positionAt 3)
     \<lparr>selection = Some [caret ([1], Text (js ''de'')) 1], console = []\<rparr> =
     Inr \<lparr>selection = Some [], console = []\<rparr> \<and>
   setCursorAtOffsetOn False (Element [Text (js ''abc''), Text (js ''de'')]) 3
     \<lparr>selection = Some [caret ([1], Text (js ''de'')) 1], console = []\<rparr> =
     Inr \<lparr>selection = Some [], console = []\<rparr>"
proof -
  let ?cs = "[Text (js ''abc''), Text (js ''de'')]"
  let ?w = "\<lparr>selection = Some [caret ([1], Text (js ''de'')) 1], console = []\<rparr>"
  have f: "findTarget (createTreeWalker_SHOW_TEXT twoLeaves) 0 (- 1) =
     Some (([0], Text (js ''abc'')), - 1)"
    unfolding walker_twoLeaves by (simp add: js_def)
  then have t: "setCursorPosition_target twoLeaves (offset (positionAt (- 1))) =
     (([0], Text (js ''abc'')), - 1)"
    by (simp add: setCursorPosition_target_def positionAt_def)
  have p: "applyPosition False twoLeaves ([0], Text (js ''abc'')) (- 1) emptyWindow =
     Inl IndexSizeError"
    by (simp add: applyPosition_def Range_setStart_def toUnsignedLong_def js_def)
  have v: "validTree (Element ?cs)" by (simp add: js_def)
  have o: "0 \<le> offset (positionAt 3)" by (simp add: positionAt_def)
  have g: "findTarget (createTreeWalker_SHOW_TEXT (Element ?cs)) 0 3 \<noteq> None"
    by (simp add: createTreeWalker_SHOW_TEXT_def js_def)
  have r: "removeAllRanges ?w = \<lparr>selection = Some [], console = []\<rparr>"
    by (simp add: removeAllRanges_def)
  from C9_never_throws[where inDocument = False and element = twoLeaves
      and pos = "positionAt (- 1)" and w = emptyWindow and k = "- 1"
      and nd = "([0], Text (js ''abc''))" and off = "- 1" and e = IndexSizeError] f t p
  have a: "setCursorPositionOn False twoLeaves (positionAt (- 1)) emptyWindow =
       Inr (console_warn ''Failed to set cursor position:'' IndexSizeError emptyWindow)"
    "setCursorAtOffsetOn False twoLeaves (- 1) emptyWindow =
       Inr (console_warn ''Failed to set cursor position:'' IndexSizeError emptyWindow)"
    by blast+
  from C9_never_throws[where cs = ?cs and pos = "positionAt 3" and k = 3 and w = ?w] v o g
  have b: "setCursorPositionOn False (Element ?cs) (positionAt 3) ?w = Inr (removeAllRanges ?w)"
    "setCursorAtOffsetOn False (Element ?cs) 3 ?w = Inr (removeAllRanges ?w)"
    by simp_all
  from a b f t p v o show ?thesis
    unfolding r by (simp add: console_warn_def emptyWindow_def)
qed

section \<open>The two cursor setters compared\<close>

lemma setCursor_same_target:
  assumes "findTarget (createTreeWalker_SHOW_TEXT element) 0 k = Some (nd, off)"
  shows "setCursorPosition_target element k = (nd, off)"
    and "setCursorPosition element (positionAt k) w = setCursorAtOffset element k w"
  using assms
  by (simp_all add: setCursorPosition_def setCursorPosition_target_def setCursorAtOffset_def
      positionAt_def)

text \<open>
  C10 (as stated): \<open>setCursorPosition\<close> and \<open>setCursorAtOffset\<close> compute the same target for
  every tree and every offset from 0 to the total length, and differ only beyond it.  On
  the element without children, offset 0 is in range, yet the walk finds no text node:
  \<open>setCursorPosition\<close> takes the element itself as its target and places the caret there,
  whereas \<open>setCursorAtOffset\<close> has no target and leaves the window as it is.
\<close>

theorem C10_counterexample:
  "(0::int) \<le> 0 \<and> (0::int) \<le> int (length (textContent (Element []))) \<and>
   findTarget (createTreeWalker_SHOW_TEXT (Element [])) 0 0 = None \<and>
   setCursorPosition_target (Element []) 0 = (([], Element []), 0) \<and>
   setCursorPosition (Element []) (positionAt 0) emptyWindow \<noteq>
     setCursorAtOffset (Element []) 0 emptyWindow"
  by (simp add: createTreeWalker_SHOW_TEXT_def setCursorPosition_target_def
      setCursorPosition_def setCursorAtOffset_def placeCaret_element try_catch_def
      positionAt_def emptyWindow_def)

text \<open>
  C10 (amended): for every tree with at least one text node and every offset from 0 to the
  total length, both functions find the same text node and local offset and have the same
  effect; for an offset beyond the total length \<open>setCursorAtOffset\<close> leaves the window
  unchanged, while \<open>setCursorPosition\<close> collapses the selection to the element at offset 0.
\<close>

theorem C10_in_and_out_of_range:
  "(createTreeWalker_SHOW_TEXT (Element cs) \<noteq> [] \<and> 0 \<le> k \<and>
    k \<le> int (length (textContent (Element cs))) \<longrightarrow>
      (\<exists>nd off. findTarget (createTreeWalker_SHOW_TEXT (Element cs)) 0 k = Some (nd, off) \<and>
         setCursorPosition_target (Element cs) k = (nd, off)) \<and>
      setCursorPosition (Element cs) (positionAt k) w = setCursorAtOffset (Element cs) k w) \<and>
   (int (length (textContent (Element cs))) < k \<longrightarrow>
      setCursorAtOffset (Element cs) k w = Inr w \<and>
      setCursorPosition (Element cs) (positionAt k) w =
        Inr (w\<lparr>selection :=
               map_option (\<lambda>rs. [caret ([], Element cs) 0]) (selection w)\<rparr>))"
proof -
  let ?e = "Element cs"
  have "(\<exists>nd off. findTarget (createTreeWalker_SHOW_TEXT ?e) 0 k = Some (nd, off) \<and>
         setCursorPosition_target ?e k = (nd, off)) \<and>
      setCursorPosition ?e (positionAt k) w = setCursorAtOffset ?e k w"
    if "createTreeWalker_SHOW_TEXT ?e \<noteq> []" "k \<le> int (length (textContent ?e))"
  proof -
    from that have "findTarget (createTreeWalker_SHOW_TEXT ?e) 0 k \<noteq> None"
      by (simp add: findTarget_None_iff walker_textLength)
    then obtain nd off where "findTarget (createTreeWalker_SHOW_TEXT ?e) 0 k = Some (nd, off)"
      by auto
    with setCursor_same_target[OF this] show ?thesis by simp
  qed
  moreover have "setCursorAtOffset ?e k w = Inr w \<and>
      setCursorPosition ?e (positionAt k) w =
        Inr (w\<lparr>selection := map_option (\<lambda>rs. [caret ([], ?e) 0]) (selection w)\<rparr>)"
    if "int (length (textContent ?e)) < k"
  proof -
    from findTarget_beyond[OF that]
    have "findTarget (createTreeWalker_SHOW_TEXT ?e) 0 k = None" .
    then show ?thesis
      by (simp add: setCursorAtOffset_no_target setCursorPosition_no_target positionAt_def)
  qed
  ultimately show ?thesis by blast
qed

theorem C10_witness:
  "createTreeWalker_SHOW_TEXT (Element [Text (js ''abc''), Text (js ''de'')]) \<noteq> [] \<and>
   (0::int) \<le> 3 \<and> 3 \<le> int (length (textContent (Element [Text (js ''abc''), Text (js ''de'')]))) \<and>
   setCursorPosition (Element [Text (js ''abc''), Text (js ''de'')]) (positionAt 3) emptyWindow =
     setCursorAtOffset (Element [Text (js ''abc''), Text (js ''de'')]) 3 emptyWindow \<and>
   int (length (textContent (Element [Text (js ''abc''), Text (js ''de'')]))) < 9 \<and>
   setCursorAtOffset (Element [Text (js ''abc''), Text (js ''de'')]) 9 emptyWindow = Inr emptyWindow"
proof -
  have 1: "createTreeWalker_SHOW_TEXT (Element [Text (js ''abc''), Text (js ''de'')]) \<noteq> []"
    by (simp add: createTreeWalker_SHOW_TEXT_def)
  have 2: "int (length (textContent (Element [Text (js ''abc''), Text (js ''de'')]))) = 5"
    by (simp add: js_def)
  from C10_in_and_out_of_range[of "[Text (js ''abc''), Text (js ''de'')]" 3 emptyWindow]
    C10_in_and_out_of_range[of "[Text (js ''abc''), Text (js ''de'')]" 9 emptyWindow] 1 2
  show ?thesis by simp
qed

section \<open>Reading the cursor\<close>

lemma filter_length_le:
  "length (concat (map snd (filter P L))) \<le> length (concat (map snd L))"
  by (induction L) auto

lemma filter_length_le_excluded:
  "t \<in> set L \<Longrightarrow> \<not> P t \<Longrightarrow>
   length (concat (map snd (filter P L))) + length (snd t) \<le> length (concat (map snd L))"
proof (induction L)
  case Nil
  then show ?case by simp
next
  case (Cons x L)
  show ?case
  proof (cases "t = x")
    case True
    with Cons.prems filter_length_le[of P L] show ?thesis by simp
  next
    case False
    with Cons show ?thesis by auto
  qed
qed

lemma textNodesFrom_child:
  "i < length cs \<Longrightarrow> set (textNodes (p @ [j + i]) (cs ! i)) \<subseteq> set (textNodesFrom p j cs)"
proof (induction cs arbitrary: i j)
  case Nil
  then show ?case by simp
next
  case (Cons c cs)
  show ?case
  proof (cases i)
    case 0
    then show ?thesis by simp
  next
    case (Suc i')
    with Cons.prems have "i' < length cs" by simp
    from Cons.IH[OF this, of "Suc j"] Suc show ?thesis by auto
  qed
qed

lemma lookup_textNodes:
  "lookup n r = Some (Text s) \<Longrightarrow> (p @ r, s) \<in> set (textNodes p n)"
proof (induction r arbitrary: n p)
  case Nil
  then show ?case by simp
next
  case (Cons i r)
  from Cons.prems obtain cs where n: "n = Element cs" and i: "i < length cs"
    and l: "lookup (cs ! i) r = Some (Text s)"
    by (cases n) (auto split: if_splits)
  from Cons.IH[OF l, of "p @ [i]"] textNodesFrom_child[OF i, of p 0]
  show ?case by (auto simp: n)
qed

lemma lookup_valid: "validTree n \<Longrightarrow> lookup n p = Some m \<Longrightarrow> validTree m"
proof (induction p arbitrary: n)
  case Nil
  then show ?case by simp
next
  case (Cons i p)
  from Cons.prems obtain cs where n: "n = Element cs" and i: "i < length cs"
    and l: "lookup (cs ! i) p = Some m"
    by (cases n) (auto split: if_splits)
  from Cons.prems(1) n i have "validTree (cs ! i)" by (simp add: list_all_length)
  from Cons.IH[OF this l] show ?case .
qed

lemma validTree_nodeLength: "validTree m \<Longrightarrow> nodeLength m < 2 ^ 32"
  by (cases m) auto

lemma Range_toString_le:
  assumes l: "lookup (Element cs) p = Some m" and k: "k \<le> nodeLength m"
  shows "length (Range_toString (Element cs)
           \<lparr>startContainer = ([], Element cs), startOffset = 0,
            endContainer = (p, m), endOffset = k\<rparr>) \<le> length (textContent (Element cs))"
proof -
  let ?e = "Element cs"
  let ?r = "\<lparr>startContainer = ([], ?e), startOffset = 0, endContainer = (p, m), endOffset = k\<rparr>"
  let ?L = "textNodes [] ?e"
  have total: "length (concat (map snd ?L)) = length (textContent ?e)"
    by (simp add: textNodes_text)
  show ?thesis
  proof (cases "p = []")
    case True
    with l have "m = ?e" by simp
    with True have "Range_toString ?e ?r = concat (map snd (filter (contained ?r) ?L))"
      by (simp add: Range_toString_def)
    with filter_length_le[of "contained ?r" ?L] total show ?thesis by simp
  next
    case False
    show ?thesis
    proof (cases m)
      case (Text s)
      from lookup_textNodes[OF l[unfolded Text], of "[]"] have mem: "(p, s) \<in> set ?L" by simp
      have nc: "\<not> contained ?r (p, s)"
        using k Text by (simp add: contained_def boundaryPosition_self)
      have "Range_toString ?e ?r = concat (map snd (filter (contained ?r) ?L)) @ take k s"
        using False Text by (auto simp: Range_toString_def)
      with filter_length_le_excluded[of "(p, s)" ?L "contained ?r", OF mem nc] total
      show ?thesis by simp
    next
      case (Comment s)
      with False have "Range_toString ?e ?r = concat (map snd (filter (contained ?r) ?L))"
        by (auto simp: Range_toString_def)
      with filter_length_le[of "contained ?r" ?L] total show ?thesis by simp
    next
      case (Element ds)
      with False have "Range_toString ?e ?r = concat (map snd (filter (contained ?r) ?L))"
        by (auto simp: Range_toString_def)
      with filter_length_le[of "contained ?r" ?L] total show ?thesis by simp
    qed
  qed
qed

lemma getCursorPosition_None_iff:
  "getCursorPosition element w = Inr None \<longleftrightarrow> (selection w = None \<or> selection w = Some [])"
  by (auto simp: getCursorPosition_def Let_def split: option.splits sum.splits list.splits)

text \<open>
  C7: \<open>getCursorPosition\<close> returns \<open>null\<close> exactly when there is no selection object or the
  selection has no range (never an offset of zero in their place); whenever the first range
  starts at a boundary point that the DOM admits, it returns a non-negative integer offset;
  and when the anchor is a node of the element's tree, that offset is at most the length of
  the element's text.
\<close>

theorem C7_no_selection:
  "(getCursorPosition element w = Inr None \<longleftrightarrow>
      (selection w = None \<or> selection w = Some [])) \<and>
   (selection w = Some (rng # rs) \<and>
    startOffset rng \<le> nodeLength (snd (startContainer rng)) \<and>
    nodeLength (snd (startContainer rng)) < 2 ^ 32 \<longrightarrow>
      (\<exists>c. getCursorPosition element w = Inr (Some c) \<and> 0 \<le> offset c)) \<and>
   (selection w = Some (rng # rs) \<and> validTree (Element cs) \<and>
    lookup (Element cs) (fst (startContainer rng)) = Some (snd (startContainer rng)) \<and>
    startOffset rng \<le> nodeLength (snd (startContainer rng)) \<longrightarrow>
      (\<exists>c. getCursorPosition (Element cs) w = Inr (Some c) \<and> 0 \<le> offset c \<and>
           offset c \<le> int (length (textContent (Element cs)))))"
proof -
  have 2: "\<exists>c. getCursorPosition element w = Inr (Some c) \<and> 0 \<le> offset c"
    if "selection w = Some (rng # rs)"
      "startOffset rng \<le> nodeLength (snd (startContainer rng))"
      "nodeLength (snd (startContainer rng)) < 2 ^ 32"
  proof -
    from that have "startOffset rng < 2 ^ 32" by simp
    from getCursorPosition_range[OF that(1,2) this] show ?thesis by simp
  qed
  have 3: "\<exists>c. getCursorPosition (Element cs) w = Inr (Some c) \<and> 0 \<le> offset c \<and>
           offset c \<le> int (length (textContent (Element cs)))"
    if s: "selection w = Some (rng # rs)" and v: "validTree (Element cs)"
      and l: "lookup (Element cs) (fst (startContainer rng)) = Some (snd (startContainer rng))"
      and k: "startOffset rng \<le> nodeLength (snd (startContainer rng))"
  proof -
    from validTree_nodeLength[OF lookup_valid[OF v l]] k have "startOffset rng < 2 ^ 32" by simp
    note g = getCursorPosition_range[OF s k this, of "Element cs"]
    from Range_toString_le[OF l k]
    have "length (Range_toString (Element cs)
           \<lparr>startContainer = ([], Element cs), startOffset = 0,
            endContainer = startContainer rng, endOffset = startOffset rng\<rparr>)
          \<le> length (textContent (Element cs))" by simp
    with g show ?thesis by simp
  qed
  from getCursorPosition_None_iff 2 3 show ?thesis by blast
qed

theorem C7_witness:
  "selection \<lparr>selection = Some [caret ([1], Text (js ''de'')) 1], console = []\<rparr> =
     Some (caret ([1], Text (js ''de'')) 1 # []) \<and>
   validTree (Element [Text (js ''abc''), Text (js ''de'')]) \<and>
   lookup (Element [Text (js ''abc''), Text (js ''de'')])
     (fst (startContainer (caret ([1], Text (js ''de'')) 1))) =
     Some (snd (startContainer (caret ([1], Text (js ''de'')) 1))) \<and>
   startOffset (caret ([1], Text (js ''de'')) 1) \<le>
     nodeLength (snd (startContainer (caret ([1], Text (js ''de'')) 1))) \<and>
   nodeLength (snd (startContainer (caret ([1], Text (js ''de'')) 1))) < 2 ^ 32 \<and>
   getCursorPosition (Element [Text (js ''abc''), Text (js ''de'')])
     \<lparr>selection = Some [caret ([1], Text (js ''de'')) 1], console = []\<rparr> \<noteq> Inr None \<and>
   (\<exists>c. getCursorPosition (Element [Text (js ''abc''), Text (js ''de'')])
          \<lparr>selection = Some [caret ([1], Text (js ''de'')) 1], console = []\<rparr> = Inr (Some c) \<and>
        0 \<le> offset c \<and>
        offset c \<le> int (length (textContent (Element [Text (js ''abc''), Text (js ''de'')]))))"
proof -
  let ?w = "\<lparr>selection = Some [caret ([1], Text (js ''de'')) 1], console = []\<rparr>"
  let ?cs = "[Text (js ''abc''), Text (js ''de'')]"
  have 1: "selection ?w = Some (caret ([1], Text (js ''de'')) 1 # [])" by simp
  have 2: "validTree (Element ?cs)" by (simp add: js_def)
  have 3: "lookup (Element ?cs) (fst (startContainer (caret ([1], Text (js ''de'')) 1))) =
     Some (snd (startContainer (caret ([1], Text (js ''de'')) 1)))"
    by (simp add: caret_def)
  have 4: "startOffset (caret ([1], Text (js ''de'')) 1) \<le>
     nodeLength (snd (startContainer (caret ([1], Text (js ''de'')) 1)))"
    by (simp add: caret_def js_def)
  have 5: "nodeLength (snd (startContainer (caret ([1], Text (js ''de'')) 1))) < 2 ^ 32"
    by (simp add: caret_def js_def)
  from C7_no_selection[of "Element ?cs" ?w "caret ([1], Text (js ''de'')) 1" "[]" ?cs]
    1 2 3 4 5
  show ?thesis by auto
qed

section \<open>Repeated paragraph navigation\<close>

lemma findParagraphEnd_bounds:
  "cur \<le> int (length str) \<Longrightarrow>
   cur \<le> findParagraphEnd str cur \<and> findParagraphEnd str cur \<le> int (length str)"
proof (induction str cur rule: findParagraphEnd.induct)
  case (1 str i)
  show ?case
  proof (cases "i < int (length str)")
    case True
    with "1.IH" show ?thesis by (subst (1 2) findParagraphEnd.simps) auto
  next
    case False
    with "1.prems" show ?thesis by (subst (1 2) findParagraphEnd.simps) simp
  qed
qed

lemma findParagraphEnd_LF:
  "findParagraphEnd str cur < int (length str) \<Longrightarrow>
   charAt str (findParagraphEnd str cur) = Some LF"
proof (induction str cur rule: findParagraphEnd.induct)
  case (1 str i)
  show ?case
  proof (cases "i < int (length str)")
    case True
    note lt = True
    show ?thesis
    proof (cases "charAt str i = Some LF \<and>
        (i = int (length str) - 1 \<or> charAt str (i + 1) = Some LF)")
      case True
      with lt have "findParagraphEnd str i = i" by (subst findParagraphEnd.simps) simp
      with True show ?thesis by simp
    next
      case False
      with lt have eq: "findParagraphEnd str i = findParagraphEnd str (i + 1)"
        by (subst findParagraphEnd.simps) auto
      from "1.IH"[OF lt False] "1.prems" show ?thesis unfolding eq by simp
    qed
  next
    case False
    then have "findParagraphEnd str i = int (length str)" by (subst findParagraphEnd.simps) simp
    with "1.prems" show ?thesis by simp
  qed
qed

lemma nextParagraphStart_bounds:
  "i \<le> j \<Longrightarrow> j < int (length str) \<Longrightarrow> charAt str j \<noteq> Some LF \<Longrightarrow>
   i \<le> nextParagraphStart str i t \<and> nextParagraphStart str i t \<le> j"
proof (induction str i t rule: nextParagraphStart.induct)
  case (1 str i t)
  from "1.prems" have lt: "i < int (length str)" by simp
  show ?case
  proof (cases "charAt str (i - 1) = Some LF \<and> charAt str (i - 2) = Some LF")
    case True
    with lt have "nextParagraphStart str i t = i" by (subst nextParagraphStart.simps) simp
    with "1.prems" show ?thesis by simp
  next
    case False
    note c1 = False
    show ?thesis
    proof (cases "charAt str i \<noteq> Some LF")
      case True
      with lt c1 have "nextParagraphStart str i t = i" by (subst nextParagraphStart.simps) auto
      with "1.prems" show ?thesis by simp
    next
      case False
      with "1.prems" have "i \<noteq> j" by auto
      with "1.prems" have ij: "i + 1 \<le> j" by simp
      from lt c1 False have eq: "nextParagraphStart str i t = nextParagraphStart str (i + 1) t"
        by (subst nextParagraphStart.simps) auto
      from "1.IH"[OF lt c1 _ ij "1.prems"(2,3)] False show ?thesis unfolding eq by simp
    qed
  qed
qed

lemma arrowDownTarget_progress:
  assumes "0 \<le> cur" "cur \<le> j" "j < int (length str)" "charAt str j \<noteq> Some LF"
  shows "cur < arrowDownTarget str cur \<and> arrowDownTarget str cur \<le> int (length str)"
proof -
  let ?pE = "findParagraphEnd str cur"
  from assms have cl: "cur \<le> int (length str)" by simp
  note b = findParagraphEnd_bounds[OF cl]
  show ?thesis
  proof (cases "cur = ?pE")
    case False
    with b show ?thesis by (simp add: arrowDownTarget_def Let_def)
  next
    case True
    with assms have lt: "?pE < int (length str)" by simp
    from findParagraphEnd_LF[OF lt] True have "charAt str cur = Some LF" by simp
    with assms have "cur \<noteq> j" by auto
    with assms have "?pE + 1 \<le> j" using True by simp
    from nextParagraphStart_bounds[OF this assms(3,4), of ?pE] True lt assms(3)
    show ?thesis by (simp add: arrowDownTarget_def Let_def)
  qed
qed

lemma arrowDownTarget_end: "arrowDownTarget str (int (length str)) = 0"
proof -
  have "findParagraphEnd str (int (length str)) = int (length str)"
    by (subst findParagraphEnd.simps) simp
  then show ?thesis by (simp add: arrowDownTarget_def Let_def)
qed

lemma arrowUpTarget_start: "arrowUpTarget str 0 = int (length str)"
proof -
  have "findParagraphStart str (0 - 1) = None"
    by (subst findParagraphStart.simps) simp
  then show ?thesis by (simp add: arrowUpTarget_def Let_def)
qed

lemma findParagraphStart_bounds:
  "findParagraphStart str i = Some p \<Longrightarrow> 1 \<le> p \<and> p \<le> i + 1"
proof (induction str i rule: findParagraphStart.induct)
  case (1 str i)
  show ?case
  proof (cases "i \<ge> 0")
    case True
    note ge = True
    show ?thesis
    proof (cases "charAt str i = Some LF \<and> (i = 0 \<or> charAt str (i - 1) = Some LF)")
      case True
      with ge "1.prems" have "p = i + 1" by (subst (asm) findParagraphStart.simps) simp
      with ge show ?thesis by simp
    next
      case False
      with ge "1.prems" have "findParagraphStart str (i - 1) = Some p"
        by (subst (asm) findParagraphStart.simps) auto
      from "1.IH"[OF ge False this] show ?thesis by simp
    qed
  next
    case False
    with "1.prems" show ?thesis by (subst (asm) findParagraphStart.simps) simp
  qed
qed

lemma previousParagraphEnd_bounds:
  "0 \<le> i \<Longrightarrow> 0 \<le> previousParagraphEnd str i t \<and> previousParagraphEnd str i t \<le> i + 1"
proof (induction str i t rule: previousParagraphEnd.induct)
  case (1 str i t)
  show ?case
  proof (cases "charAt str i \<noteq> Some LF")
    case True
    with "1.prems" show ?thesis by (subst (1 2) previousParagraphEnd.simps) simp
  next
    case False
    note c1 = False
    show ?thesis
    proof (cases "i = 0")
      case True
      with c1 show ?thesis by (subst (1 2) previousParagraphEnd.simps) simp
    next
      case False
      with "1.prems" have "0 \<le> i - 1" by simp
      from "1.IH"[OF "1.prems" c1 False this] c1 False "1.prems" show ?thesis
        by (subst (1 2) previousParagraphEnd.simps) simp
    qed
  qed
qed

lemma arrowUpTarget_progress:
  assumes "2 \<le> cur"
  shows "0 \<le> arrowUpTarget str cur \<and> arrowUpTarget str cur < cur"
proof -
  define pS where "pS = (case findParagraphStart str (cur - 1) of Some p \<Rightarrow> p | None \<Rightarrow> 0)"
  have b: "0 \<le> pS \<and> pS \<le> cur"
  proof (cases "findParagraphStart str (cur - 1)")
    case None
    with assms show ?thesis by (simp add: pS_def)
  next
    case (Some p)
    from findParagraphStart_bounds[OF Some] Some show ?thesis by (simp add: pS_def)
  qed
  have t: "arrowUpTarget str cur =
      (if \<bar>cur - pS\<bar> \<le> 1
       then (if pS > 0 then previousParagraphEnd str (pS - 2) pS else int (length str))
       else pS)"
    by (simp add: arrowUpTarget_def Let_def pS_def)
  show ?thesis
  proof (cases "\<bar>cur - pS\<bar> \<le> 1")
    case False
    with b t show ?thesis by auto
  next
    case True
    with assms b have p1: "1 \<le> pS" by simp
    show ?thesis
    proof (cases "0 \<le> pS - 2")
      case True
      from previousParagraphEnd_bounds[OF True, of str pS] t p1 b \<open>\<bar>cur - pS\<bar> \<le> 1\<close>
      show ?thesis by simp
    next
      case False
      then have "previousParagraphEnd str (pS - 2) pS = pS"
        by (subst previousParagraphEnd.simps) simp
      with False p1 t assms \<open>\<bar>cur - pS\<bar> \<le> 1\<close> show ?thesis by simp
    qed
  qed
qed

lemma arrowDownTarget_reaches_end:
  assumes ne: "str \<noteq> []" and last: "last str \<noteq> LF"
  shows "0 \<le> cur \<Longrightarrow> cur \<le> int (length str) \<Longrightarrow>
     \<exists>n. int n \<le> int (length str) - cur \<and>
         (arrowDownTarget str ^^ n) cur = int (length str) \<and>
         (\<forall>m<n. (arrowDownTarget str ^^ m) cur < (arrowDownTarget str ^^ Suc m) cur)"
proof (induction "nat (int (length str) - cur)" arbitrary: cur rule: less_induct)
  case less
  show ?case
  proof (cases "cur = int (length str)")
    case True
    then show ?thesis by (intro exI[of _ 0]) simp
  next
    case False
    with less.prems have lt: "cur < int (length str)" by simp
    let ?j = "int (length str) - 1"
    have cj: "charAt str ?j \<noteq> Some LF"
    proof -
      have "nat (int (length str) - 1) = length str - 1" by simp
      with ne last show ?thesis by (simp add: charAt_def last_conv_nth)
    qed
    let ?c = "arrowDownTarget str cur"
    from arrowDownTarget_progress[OF less.prems(1) _ _ cj] lt
    have p: "cur < ?c" "?c \<le> int (length str)" by simp_all
    then have "nat (int (length str) - ?c) < nat (int (length str) - cur)" "0 \<le> ?c"
      using less.prems by simp_all
    from less.hyps[OF this(1) this(2) p(2)] obtain n where
      n: "int n \<le> int (length str) - ?c"
         "(arrowDownTarget str ^^ n) ?c = int (length str)"
         "\<forall>m<n. (arrowDownTarget str ^^ m) ?c < (arrowDownTarget str ^^ Suc m) ?c"
      by blast
    have inc: "(arrowDownTarget str ^^ m) cur < (arrowDownTarget str ^^ Suc m) cur"
      if "m < Suc n" for m
    proof (cases m)
      case 0
      with p show ?thesis by simp
    next
      case (Suc m')
      with that n(3) have "(arrowDownTarget str ^^ m') ?c < (arrowDownTarget str ^^ Suc m') ?c"
        by simp
      then show ?thesis unfolding Suc by (simp only: funpow_Suc_right o_apply)
    qed
    have "(arrowDownTarget str ^^ Suc n) cur = int (length str)"
      using n(2) by (simp only: funpow_Suc_right o_apply)
    moreover have "int (Suc n) \<le> int (length str) - cur" using n(1) p(1) by simp
    ultimately show ?thesis using inc by (intro exI[of _ "Suc n"]) blast
  qed
qed

text \<open>
  Where the progress lemmas do not apply the navigation can stay where it is: forward
  before a line break that ends the text, backward right after a line break that begins it.
\<close>

lemma arrowTargets_unchanged:
  "arrowDownTarget (js ''a\<newline>\<newline>b\<newline>'') 4 = 4 \<and> length (js ''a\<newline>\<newline>b\<newline>'') = 5 \<and>
   arrowUpTarget (js ''\<newline>abc'') 1 = 1"
  by (simp add: arrowDownTarget_def arrowUpTarget_def js_def charAt_def LF_def
      findParagraphEnd.simps nextParagraphStart.simps
      findParagraphStart.simps previousParagraphEnd.simps)

text \<open>
  C5 (as stated): on a text with at least two paragraphs, repeated forward navigation from
  0 visits each paragraph start once and reaches the text length within \<open>N\<close> applications,
  \<open>N\<close> the number of paragraphs.  "Hello\n\nWorld" has two paragraphs and 12 characters,
  and neither one nor two applications from 0 reach 12.
\<close>

theorem C5_counterexample:
  "length (js ''Hello\<newline>\<newline>World'') = 12 \<and>
   arrowDownTarget (js ''Hello\<newline>\<newline>World'') 0 \<noteq> 12 \<and>
   arrowDownTarget (js ''Hello\<newline>\<newline>World'')
     (arrowDownTarget (js ''Hello\<newline>\<newline>World'') 0) \<noteq> 12"
  by (simp add: arrowDownTarget_def js_def charAt_def LF_def
      findParagraphEnd.simps nextParagraphStart.simps)

text \<open>
  C5 (amended): from an offset below the text length with a character at or after it that
  is no line break, forward navigation returns a strictly greater offset, at most the text
  length; so on a text that does not end in a line break, repeated forward navigation from
  0 is strictly increasing and reaches the text length, within as many applications as the
  text has characters.  It stops at the end of a paragraph as well as at the start of the
  next one: on "Hello\n\nWorld" the offsets are 0, 5, 7, 12.  From the text length forward
  navigation returns 0.  Backward navigation returns a strictly smaller offset from every
  offset of at least 2, and the text length from 0.
\<close>

theorem C5_paragraph_walk:
  "(0 \<le> cur \<and> cur \<le> j \<and> j < int (length str) \<and> charAt str j \<noteq> Some LF \<longrightarrow>
      cur < arrowDownTarget str cur \<and> arrowDownTarget str cur \<le> int (length str)) \<and>
   (str \<noteq> [] \<and> last str \<noteq> LF \<longrightarrow>
      (\<exists>n. n \<le> length str \<and> (arrowDownTarget str ^^ n) 0 = int (length str) \<and>
         (\<forall>m<n. (arrowDownTarget str ^^ m) 0 < (arrowDownTarget str ^^ Suc m) 0))) \<and>
   arrowDownTarget str (int (length str)) = 0 \<and>
   (2 \<le> cur \<longrightarrow> 0 \<le> arrowUpTarget str cur \<and> arrowUpTarget str cur < cur) \<and>
   arrowUpTarget str 0 = int (length str) \<and>
   arrowDownTarget (js ''Hello\<newline>\<newline>World'') 0 = 5 \<and>
   arrowDownTarget (js ''Hello\<newline>\<newline>World'') 5 = 7 \<and>
   arrowDownTarget (js ''Hello\<newline>\<newline>World'') 7 = 12"
proof -
  have 1: "cur < arrowDownTarget str cur \<and> arrowDownTarget str cur \<le> int (length str)"
    if "0 \<le> cur" "cur \<le> j" "j < int (length str)" "charAt str j \<noteq> Some LF"
    using that by (rule arrowDownTarget_progress)
  have 2: "\<exists>n. n \<le> length str \<and> (arrowDownTarget str ^^ n) 0 = int (length str) \<and>
         (\<forall>m<n. (arrowDownTarget str ^^ m) 0 < (arrowDownTarget str ^^ Suc m) 0)"
    if "str \<noteq> []" "last str \<noteq> LF"
    using arrowDownTarget_reaches_end[OF that, of 0] by auto
  have 3: "0 \<le> arrowUpTarget str cur \<and> arrowUpTarget str cur < cur" if "2 \<le> cur"
    using that by (rule arrowUpTarget_progress)
  have 4: "arrowDownTarget (js ''Hello\<newline>\<newline>World'') 0 = 5"
    by (simp add: arrowDownTarget_def js_def charAt_def LF_def
        findParagraphEnd.simps nextParagraphStart.simps)
  have 5: "arrowDownTarget (js ''Hello\<newline>\<newline>World'') 5 = 7"
    by (simp add: arrowDownTarget_def js_def charAt_def LF_def
        findParagraphEnd.simps nextParagraphStart.simps)
  have 6: "arrowDownTarget (js ''Hello\<newline>\<newline>World'') 7 = 12"
    by (simp add: arrowDownTarget_def js_def charAt_def LF_def
        findParagraphEnd.simps nextParagraphStart.simps)
  from 1 2 3 4 5 6 arrowDownTarget_end arrowUpTarget_start show ?thesis by blast
qed

theorem C5_witness:
  "(0::int) \<le> 0 \<and> (0::int) < int (length (js ''Hello\<newline>\<newline>World'')) \<and>
   charAt (js ''Hello\<newline>\<newline>World'') 0 \<noteq> Some LF \<and>
   0 < arrowDownTarget (js ''Hello\<newline>\<newline>World'') 0 \<and>
   arrowDownTarget (js ''Hello\<newline>\<newline>World'') 0 \<le>
     int (length (js ''Hello\<newline>\<newline>World'')) \<and>
   js ''Hello\<newline>\<newline>World'' \<noteq> [] \<and> last (js ''Hello\<newline>\<newline>World'') \<noteq> LF \<and>
   (\<exists>n. n \<le> length (js ''Hello\<newline>\<newline>World'') \<and>
      (arrowDownTarget (js ''Hello\<newline>\<newline>World'') ^^ n) 0 =
        int (length (js ''Hello\<newline>\<newline>World''))) \<and>
   (2::int) \<le> 12 \<and> arrowUpTarget (js ''Hello\<newline>\<newline>World'') 12 < 12"
proof -
  have 1: "(0::int) < int (length (js ''Hello\<newline>\<newline>World''))" by (simp add: js_def)
  have 2: "charAt (js ''Hello\<newline>\<newline>World'') 0 \<noteq> Some LF"
    by (simp add: js_def charAt_def LF_def)
  have 3: "js ''Hello\<newline>\<newline>World'' \<noteq> []" by (simp add: js_def)
  have 4: "last (js ''Hello\<newline>\<newline>World'') \<noteq> LF" by (simp add: js_def LF_def)
  from C5_paragraph_walk[of 0 0 "js ''Hello\<newline>\<newline>World''"]
    C5_paragraph_walk[of 12 0 "js ''Hello\<newline>\<newline>World''"] 1 2 3 4
  show ?thesis by auto
qed

end
